theory Spec2Isabelle
  imports Main "HOL-Library.Word" "HOL-Library.Signed_Division"
begin

section \<open>The file splitter: data model\<close>

text \<open>
  The program (\<^verbatim>\<open>split.cpp\<close>, \<^verbatim>\<open>find_bound.cpp\<close>) splits a file of FASTA records
  into \<open>num_pieces\<close> files. It streams the input through a buffer of twice the
  chunk size and asks \<open>split_FindBound\<close> where a piece may end.

  Conventions of the embedding.
  \<^item> \<open>int64_t\<close> values are \<open>int\<close>. The offsets of the program are bounded by the
    input size and by twice the chunk size (at most \<open>INT64_MAX\<close>, see the check of
    the chunk size on the command line), so no 64-bit operation wraps.
  \<^item> A \<open>char *\<close> is a store \<open>mem\<close> from offsets to bytes; \<open>buff + k\<close> is \<open>shift_ptr\<close>.
  \<^item> The counter \<open>num_new_lines\<close> is declared \<open>char\<close> in the source; it is an
    8-bit word here, so that its increments wrap as they do on the machine.
  \<^item> \<open>SPLIT_ASSERT\<close> expands to nothing unless \<open>SPLIT_DEBUG\<close> is defined. The flag
    \<open>dbg\<close> of every function says which build is modelled: with \<open>dbg\<close> a failed
    assertion ends the run with \<open>Internal_error file line\<close> (what \<open>SPLIT_ABORT\<close>
    prints), without it the assertion is not evaluated.
  \<^item> \<open>SPLIT_ERROR\<close> prints a message and calls \<open>exit (EXIT_FAILURE)\<close>; each of its
    uses is a constructor of \<open>failure\<close>.
\<close>

type_synonym mem = "int \<Rightarrow> char"

datatype failure =
    Internal_error string nat
  | No_item_bound
  | Pieces_not_produced int
  | Short_read int int
  | Short_write int int

definition shift_ptr :: "mem \<Rightarrow> int \<Rightarrow> mem" where
  "shift_ptr buff k = (\<lambda>j. buff (k + j))"

definition new_line :: char where
  "new_line = CHR 0x0A"

definition SPLIT_BOUND_NOT_FOUND :: int where
  "SPLIT_BOUND_NOT_FOUND = - 12345"

section \<open>The boundary locator (find\_bound.cpp)\<close>

text \<open>
  One iteration of the search loop of \<open>split_FindBound\<close> (lines 75 to 136), at
  radius \<open>i\<close> with the counter \<open>num_new_lines\<close>: it returns from the function or
  goes on with the new counter.
\<close>

datatype iteration = Return int | Continue "8 word"

definition find_iteration :: "mem \<Rightarrow> int \<Rightarrow> int \<Rightarrow> bool \<Rightarrow> int \<Rightarrow> 8 word \<Rightarrow> iteration" where
  "find_iteration buff projected_bound buff_size is_first_block i num_new_lines =
    (let distance_to_l_bound = projected_bound + 1;
         distance_to_u_bound = buff_size - projected_bound;
         left_symb = (if i \<ge> distance_to_l_bound then CHR ''a'' else buff (projected_bound - i));
         right_symb = (if i \<ge> distance_to_u_bound then CHR ''a'' else buff (projected_bound + i))
     in
       if left_symb = CHR ''>'' \<and> (i < distance_to_l_bound - 1 \<or> \<not> is_first_block)
       then Return (projected_bound - i - 1)
       else if right_symb = CHR ''>'' \<and> i \<noteq> 0
       then Return (projected_bound + i - 1)
       else
         let n1 = (if left_symb = new_line then num_new_lines + 1 else num_new_lines);
             n2 = (if right_symb = new_line \<and> i \<noteq> 0 then n1 + 1 else n1)
         in
           if n2 = 2 \<and> i \<ge> distance_to_u_bound - 1 \<and> buff (buff_size - 1) = new_line
           then Return (buff_size - 1)
           else Continue n2)"

text \<open>
  The loop \<open>for (i = 0; i < max (distance_to_l_bound, distance_to_u_bound); i++)\<close>,
  entered at radius \<open>i\<close>. The assertion of line 138 is checked at the end of every
  iteration that does not return. Where it is checked the counter is at most 4
  (it was at most 2 after the iteration before), so that it reads the same
  whether \<open>char\<close> is signed or not.
\<close>

function find_loop :: "bool \<Rightarrow> mem \<Rightarrow> int \<Rightarrow> int \<Rightarrow> bool \<Rightarrow> int \<Rightarrow> 8 word \<Rightarrow> failure + int" where
  "find_loop dbg buff projected_bound buff_size is_first_block i num_new_lines =
    (if i < max (projected_bound + 1) (buff_size - projected_bound) then
       (case find_iteration buff projected_bound buff_size is_first_block i num_new_lines of
          Return r \<Rightarrow> Inr r
        | Continue n \<Rightarrow>
            if dbg \<and> \<not> n \<le> 2 then Inl (Internal_error ''find_bound.cpp'' 138)
            else find_loop dbg buff projected_bound buff_size is_first_block (i + 1) n)
     else Inr SPLIT_BOUND_NOT_FOUND)"
  by pat_completeness auto
termination
  by (relation "measure (\<lambda>(dbg, buff, pb, bs, fb, i, n). nat (max (pb + 1) (bs - pb) - i))") auto

declare find_loop.simps [simp del]

definition split_FindBound :: "bool \<Rightarrow> mem \<Rightarrow> int \<Rightarrow> int \<Rightarrow> bool \<Rightarrow> failure + int" where
  "split_FindBound dbg buff projected_bound buff_size is_first_block =
    (if dbg \<and> \<not> projected_bound \<ge> 0 then Inl (Internal_error ''find_bound.cpp'' 58)
     else if dbg \<and> \<not> projected_bound < buff_size then Inl (Internal_error ''find_bound.cpp'' 59)
     else find_loop dbg buff projected_bound buff_size is_first_block 0 0)"

section \<open>The bound-decision layer (split.cpp, lines 659 to 725)\<close>

definition split_CalcUpperBoundOfOutputTransfer ::
  "bool \<Rightarrow> mem \<Rightarrow> int \<Rightarrow> int \<Rightarrow> int \<Rightarrow> int \<Rightarrow> bool \<Rightarrow> bool \<Rightarrow> bool \<Rightarrow> failure + int" where
  "split_CalcUpperBoundOfOutputTransfer dbg buff buff_size data_start data_end projected_max
       is_first_block is_end_of_input is_last_piece =
    (let active_data_size = data_end - data_start + 1 in
     if dbg \<and> \<not> active_data_size < 2 * buff_size then Inl (Internal_error ''split.cpp'' 672)
     else if projected_max > active_data_size then
       (if active_data_size \<ge> buff_size then Inr (data_start + buff_size - 1)
        else Inr data_end)
     else if is_last_piece then
       (if dbg \<and> \<not> projected_max = active_data_size then Inl (Internal_error ''split.cpp'' 692)
        else Inr data_end)
     else
       (case split_FindBound dbg (shift_ptr buff data_start) (projected_max - 1)
               (data_end - data_start + 1) is_first_block of
          Inl e \<Rightarrow> Inl e
        | Inr bound \<Rightarrow>
            if bound \<noteq> SPLIT_BOUND_NOT_FOUND then
              (if dbg \<and> \<not> (bound \<ge> - 1 \<and> bound < data_end - data_start + 1)
               then Inl (Internal_error ''split.cpp'' 703)
               else if dbg \<and> \<not> (bound \<noteq> - 1 \<or> \<not> is_first_block)
               then Inl (Internal_error ''split.cpp'' 704)
               else Inr (bound + data_start))
            else if is_end_of_input then Inr data_end
            else
              (if dbg \<and> \<not> active_data_size \<ge> buff_size
               then Inl (Internal_error ''split.cpp'' 714)
               else Inl No_item_bound)))"

section \<open>The streaming transfer engine (split.cpp, lines 593 to 890)\<close>

text \<open>
  \<open>read (fd, buff + at, n)\<close> and \<open>memcpy (buff + at, src, n)\<close> store \<open>n\<close> bytes from
  offset \<open>at\<close> on; \<open>write (fd, buff + at, n)\<close> and the source of \<open>memcpy\<close> load
  them. An output file is the list of its bytes; writing appends to the file
  that is open, the last one created.
\<close>

definition store_bytes :: "mem \<Rightarrow> int \<Rightarrow> string \<Rightarrow> mem" where
  "store_bytes buff at bytes =
    (\<lambda>k. if at \<le> k \<and> k < at + int (length bytes) then bytes ! nat (k - at) else buff k)"

definition load_bytes :: "mem \<Rightarrow> int \<Rightarrow> int \<Rightarrow> string" where
  "load_bytes buff at n = map buff [at..at + n - 1]"

definition append_to_open_piece :: "string list \<Rightarrow> string \<Rightarrow> string list" where
  "append_to_open_piece ps bytes = butlast ps @ [last ps @ bytes]"

text \<open>
  \<open>split_FillUpperBuffHalfFromInput\<close>: the input file is the byte list \<open>input\<close>,
  read from the descriptor's offset. The result is the number of bytes read, the
  buffer and the new offset. A read that ends at the end of the file is short,
  and so is one of a negative size (the engine never asks for one: its counters
  are not negative, see \<open>window_inv\<close> below). The fourth parameter has the name
  it has in the source; the engine passes \<open>bytes_not_read\<close> for it.
\<close>

definition split_FillUpperBuffHalfFromInput ::
  "string \<Rightarrow> nat \<Rightarrow> mem \<Rightarrow> int \<Rightarrow> int \<Rightarrow> failure + (int \<times> mem \<times> nat)" where
  "split_FillUpperBuffHalfFromInput input offset double_buff buff_size bytes_available =
    (if bytes_available = 0 then Inr (0, double_buff, offset)
     else
       let io_size = (if buff_size > bytes_available then bytes_available else buff_size);
           got = take (nat io_size) (drop offset input);
           bytes_read = int (length got)
       in if bytes_read \<noteq> io_size then Inl (Short_read bytes_read io_size)
          else Inr (bytes_read, store_bytes double_buff buff_size got, offset + length got))"

text \<open>\<open>split_WriteOutput\<close> appends the bytes \<open>data_start .. data_end\<close> to the open piece.\<close>

definition split_WriteOutput :: "string list \<Rightarrow> mem \<Rightarrow> int \<Rightarrow> int \<Rightarrow> failure + string list" where
  "split_WriteOutput ps buff data_start data_end =
    (let io_size = data_end - data_start + 1;
         sent = load_bytes buff data_start io_size;
         bytes_written = int (length sent)
     in if bytes_written \<noteq> io_size then Inl (Short_write bytes_written io_size)
        else Inr (append_to_open_piece ps sent))"

text \<open>
  The options the engine reads (the paths and names of \<open>split_Opts_t\<close> only name
  files), and the local variables of \<open>split_SplitSource\<close> together with the two
  things it acts on: the read offset of the input descriptor and the output
  files written so far, in the order of their creation (the last one is the
  piece that is open).
\<close>

record split_Opts_t =
  num_pieces :: int
  buffer_size :: int

record split_state =
  double_buff :: mem
  data_start :: int
  data_end :: int
  bytes_available :: int
  bytes_not_read :: int
  to_read :: int
  is_first_block :: bool
  input_offset :: nat
  pieces :: "string list"

text \<open>
  A run ends with the output files and either the final state or the failure
  that stopped it: \<open>exit\<close> and \<open>abort\<close> leave the files as they are.
\<close>

type_synonym outcome = "(failure \<times> string list) + split_state"

definition INT64_MAX :: int where
  "INT64_MAX = 9223372036854775807"

text \<open>The body of \<open>while (to_read)\<close>, in three parts. Lines 814 to 826: the refill.\<close>

definition refill :: "bool \<Rightarrow> split_Opts_t \<Rightarrow> string \<Rightarrow> split_state \<Rightarrow> outcome" where
  "refill dbg opts input s =
    (let buff_size = buffer_size opts in
     if dbg \<and> \<not> data_end s \<ge> buff_size - 1 then Inl (Internal_error ''split.cpp'' 814, pieces s)
     else if dbg \<and> \<not> data_start s \<le> buff_size then Inl (Internal_error ''split.cpp'' 815, pieces s)
     else if data_end s = buff_size - 1 then
       (case split_FillUpperBuffHalfFromInput input (input_offset s) (double_buff s) buff_size
               (bytes_not_read s) of
          Inl e \<Rightarrow> Inl (e, pieces s)
        | Inr (bytes_read, buff, offset) \<Rightarrow>
            Inr (s\<lparr>double_buff := buff, data_end := data_end s + bytes_read,
                   bytes_not_read := bytes_not_read s - bytes_read, input_offset := offset\<rparr>))
     else Inr s)"

text \<open>Lines 828 to 859: the bound, the budget, the write and the new left bound.\<close>

definition transfer :: "bool \<Rightarrow> split_Opts_t \<Rightarrow> int \<Rightarrow> split_state \<Rightarrow> outcome" where
  "transfer dbg opts piece_num s =
    (let is_last_piece = (piece_num = num_pieces opts - 1) in
     case split_CalcUpperBoundOfOutputTransfer dbg (double_buff s) (buffer_size opts)
            (data_start s) (data_end s) (to_read s) (is_first_block s)
            (bytes_not_read s = 0) is_last_piece of
       Inl e \<Rightarrow> Inl (e, pieces s)
     | Inr output_chunk_end \<Rightarrow>
         if dbg \<and> output_chunk_end < data_start s \<and> \<not> output_chunk_end = data_start s - 1
         then Inl (Internal_error ''split.cpp'' 843, pieces s)
         else
           let budget =
                 (if output_chunk_end < data_start s then 0
                  else if output_chunk_end - data_start s + 1 > to_read s then 0
                  else to_read s - (output_chunk_end - data_start s + 1))
           in (case split_WriteOutput (pieces s) (double_buff s) (data_start s) output_chunk_end of
                 Inl e \<Rightarrow> Inl (e, pieces s)
               | Inr ps \<Rightarrow>
                   if dbg \<and> \<not> output_chunk_end < INT64_MAX
                   then Inl (Internal_error ''split.cpp'' 857, ps)
                   else Inr (s\<lparr>to_read := budget, pieces := ps,
                               bytes_available :=
                                 bytes_available s - (output_chunk_end - data_start s + 1),
                               data_start := output_chunk_end + 1,
                               is_first_block := False\<rparr>)))"

text \<open>Lines 861 to 881: the move to the lower half and the reset of an empty window.\<close>

definition compact :: "split_Opts_t \<Rightarrow> split_state \<Rightarrow> split_state" where
  "compact opts s =
    (let buff_size = buffer_size opts in
     if data_start s \<ge> buff_size \<and> data_end s - data_start s \<ge> 0 then
       let active_data_size = data_end s - data_start s + 1 in
       s\<lparr>double_buff :=
            store_bytes (double_buff s) (buff_size - active_data_size)
              (load_bytes (double_buff s) (data_start s) active_data_size),
          data_start := buff_size - active_data_size,
          data_end := buff_size - 1\<rparr>
     else s)"

definition reinitialize :: "bool \<Rightarrow> split_Opts_t \<Rightarrow> split_state \<Rightarrow> outcome" where
  "reinitialize dbg opts s =
    (let buff_size = buffer_size opts in
     if data_start s > data_end s then
       if dbg \<and> \<not> (data_start s = buff_size * 2 \<or> (bytes_available s = 0 \<and> bytes_not_read s = 0))
       then Inl (Internal_error ''split.cpp'' 876, pieces s)
       else if dbg \<and> \<not> data_end s = data_start s - 1
       then Inl (Internal_error ''split.cpp'' 878, pieces s)
       else Inr (s\<lparr>data_start := buff_size, data_end := buff_size - 1\<rparr>)
     else Inr s)"

definition loop_body :: "bool \<Rightarrow> split_Opts_t \<Rightarrow> string \<Rightarrow> int \<Rightarrow> split_state \<Rightarrow> outcome" where
  "loop_body dbg opts input piece_num s =
    (case refill dbg opts input s of
       Inl e \<Rightarrow> Inl e
     | Inr s1 \<Rightarrow>
         (case transfer dbg opts piece_num s1 of
            Inl e \<Rightarrow> Inl e
          | Inr s2 \<Rightarrow> reinitialize dbg opts (compact opts s2)))"

text \<open>
  The budget of a piece (lines 794 to 799): the bytes still to place, divided by
  the pieces still to write, rounded up. \<open>/\<close> and \<open>%\<close> of C truncate towards zero.
\<close>

definition projected_size :: "int \<Rightarrow> int \<Rightarrow> int \<Rightarrow> int" where
  "projected_size available pieces_wanted piece_num =
    (let quotient = available sdiv (pieces_wanted - piece_num) in
     if available smod (pieces_wanted - piece_num) \<noteq> 0 then quotient + 1 else quotient)"

text \<open>
  Lines 792 to 810: the budget, the check that it is not zero, and
  \<open>split_StartNewPiece\<close>, which creates the next output file, empty.
\<close>

definition start_piece :: "split_Opts_t \<Rightarrow> int \<Rightarrow> split_state \<Rightarrow> outcome" where
  "start_piece opts piece_num s =
    (let budget = projected_size (bytes_available s) (num_pieces opts) piece_num in
     if budget = 0 then Inl (Pieces_not_produced piece_num, pieces s)
     else Inr (s\<lparr>to_read := budget, is_first_block := True, pieces := pieces s @ [[]]\<rparr>))"

lemma transfer_budget:
  assumes "transfer dbg opts piece_num s = Inr s'" and "to_read s \<noteq> 0"
  shows "\<bar>to_read s'\<bar> < \<bar>to_read s\<bar>"
  using assms
  by (auto simp: transfer_def Let_def split: sum.splits if_splits)

lemma refill_budget:
  assumes "refill dbg opts input s = Inr s'"
  shows "to_read s' = to_read s"
  using assms
  by (auto simp: refill_def Let_def split: sum.splits if_splits prod.splits)

lemma compact_budget: "to_read (compact opts s) = to_read s"
  by (simp add: compact_def Let_def)

lemma reinitialize_budget:
  assumes "reinitialize dbg opts s = Inr s'"
  shows "to_read s' = to_read s"
  using assms
  by (auto simp: reinitialize_def Let_def split: if_splits)

lemma loop_body_budget:
  assumes "loop_body dbg opts input piece_num s = Inr s'" and "to_read s \<noteq> 0"
  shows "\<bar>to_read s'\<bar> < \<bar>to_read s\<bar>"
proof -
  from assms(1) obtain s1 s2 where
    r: "refill dbg opts input s = Inr s1" and
    t: "transfer dbg opts piece_num s1 = Inr s2" and
    i: "reinitialize dbg opts (compact opts s2) = Inr s'"
    by (auto simp: loop_body_def split: sum.splits)
  from r assms(2) have "to_read s1 \<noteq> 0" "to_read s1 = to_read s"
    by (simp_all add: refill_budget)
  with transfer_budget [OF t] have "\<bar>to_read s2\<bar> < \<bar>to_read s\<bar>"
    by simp
  with reinitialize_budget [OF i] show ?thesis
    by (simp add: compact_budget)
qed

text \<open>The loop \<open>while (to_read)\<close> of one piece. It ends: every pass lowers the budget.\<close>

function while_to_read :: "bool \<Rightarrow> split_Opts_t \<Rightarrow> string \<Rightarrow> int \<Rightarrow> split_state \<Rightarrow> outcome" where
  "while_to_read dbg opts input piece_num s =
    (if to_read s \<noteq> 0 then
       (case loop_body dbg opts input piece_num s of
          Inl e \<Rightarrow> Inl e
        | Inr s' \<Rightarrow> while_to_read dbg opts input piece_num s')
     else Inr s)"
  by pat_completeness auto
termination
  by (relation "measure (\<lambda>(dbg, opts, input, piece_num, s). nat \<bar>to_read s\<bar>)")
     (auto dest: loop_body_budget)

declare while_to_read.simps [simp del]

text \<open>
  The loop \<open>for (piece_num = 0; piece_num < opts->num_pieces; piece_num++)\<close>, entered
  at \<open>piece_num\<close>. \<open>split_FinalizePiece\<close> syncs and closes the file of the piece; its
  contents stay as they are.
\<close>

function for_pieces :: "bool \<Rightarrow> split_Opts_t \<Rightarrow> string \<Rightarrow> int \<Rightarrow> split_state \<Rightarrow> outcome" where
  "for_pieces dbg opts input piece_num s =
    (if piece_num < num_pieces opts then
       (case start_piece opts piece_num s of
          Inl e \<Rightarrow> Inl e
        | Inr s1 \<Rightarrow>
            (case while_to_read dbg opts input piece_num s1 of
               Inl e \<Rightarrow> Inl e
             | Inr s2 \<Rightarrow> for_pieces dbg opts input (piece_num + 1) s2))
     else Inr s)"
  by pat_completeness auto
termination
  by (relation "measure (\<lambda>(dbg, opts, input, piece_num, s). nat (num_pieces opts - piece_num))")
     auto

declare for_pieces.simps [simp del]

text \<open>
  \<open>split_SplitSource\<close>. The input file is the byte list \<open>input\<close>, opened at offset 0;
  \<open>heap\<close> is what \<open>malloc\<close> returns, a buffer whose bytes are not initialised. The
  system calls succeed (a failed \<open>open\<close>, \<open>lseek\<close>, \<open>malloc\<close>, \<open>fsync\<close>, \<open>read\<close> or
  \<open>write\<close> ends the run with a message and is not modelled); short reads and
  writes are. The state before the first piece has no budget yet: \<open>to_read\<close> and
  \<open>is_first_block\<close> are set when a piece starts. On success the result is the list
  of the output files, in the order of the pieces.
\<close>

definition initial_state :: "split_Opts_t \<Rightarrow> string \<Rightarrow> mem \<Rightarrow> split_state" where
  "initial_state opts input heap =
    \<lparr>double_buff = heap,
     data_start = buffer_size opts,
     data_end = buffer_size opts - 1,
     bytes_available = int (length input),
     bytes_not_read = int (length input),
     to_read = 0,
     is_first_block = True,
     input_offset = 0,
     pieces = []\<rparr>"

definition split_SplitSource ::
  "bool \<Rightarrow> split_Opts_t \<Rightarrow> string \<Rightarrow> mem \<Rightarrow> (failure \<times> string list) + string list" where
  "split_SplitSource dbg opts input heap =
    (if dbg \<and> \<not> num_pieces opts > 1 then Inl (Internal_error ''split.cpp'' 470, [])
     else if dbg \<and> \<not> buffer_size opts \<le> INT64_MAX div 2
     then Inl (Internal_error ''split.cpp'' 776, [])
     else
       (case for_pieces dbg opts input 0 (initial_state opts input heap) of
          Inl e \<Rightarrow> Inl e
        | Inr s \<Rightarrow>
            if dbg \<and> \<not> bytes_available s = 0
            then Inl (Internal_error ''split.cpp'' 887, pieces s)
            else Inr (pieces s)))"

text \<open>A buffer that holds the bytes of a string from offset 0 on, for the examples.\<close>

definition buffer_of :: "string \<Rightarrow> mem" where
  "buffer_of bytes = store_bytes (\<lambda>k. CHR 0x00) 0 bytes"

text \<open>
  The budgets of a run: \<open>to_read\<close> as \<open>start_piece\<close> sets it, piece after piece, as
  far as the run goes.
\<close>

function budgets_from :: "bool \<Rightarrow> split_Opts_t \<Rightarrow> string \<Rightarrow> int \<Rightarrow> split_state \<Rightarrow> int list" where
  "budgets_from dbg opts input piece_num s =
    (if piece_num < num_pieces opts then
       (case start_piece opts piece_num s of
          Inl e \<Rightarrow> []
        | Inr s1 \<Rightarrow>
            to_read s1 #
            (case while_to_read dbg opts input piece_num s1 of
               Inl e \<Rightarrow> []
             | Inr s2 \<Rightarrow> budgets_from dbg opts input (piece_num + 1) s2))
     else [])"
  by pat_completeness auto
termination
  by (relation "measure (\<lambda>(dbg, opts, input, piece_num, s). nat (num_pieces opts - piece_num))")
     auto

declare budgets_from.simps [simp del]

definition piece_budgets :: "bool \<Rightarrow> split_Opts_t \<Rightarrow> string \<Rightarrow> mem \<Rightarrow> int list" where
  "piece_budgets dbg opts input heap = budgets_from dbg opts input 0 (initial_state opts input heap)"

text \<open>
  The states in which a run of \<open>split_SplitSource\<close> evaluates the condition of
  \<open>while (to_read)\<close>, with the number of the piece being written: the state in
  which the first piece starts, the state after a pass of the loop body, and the
  state in which the next piece starts once the budget of a piece is used up.
\<close>

inductive loop_head :: "bool \<Rightarrow> split_Opts_t \<Rightarrow> string \<Rightarrow> mem \<Rightarrow> int \<Rightarrow> split_state \<Rightarrow> bool"
  for dbg opts input heap where
    first_piece:
      "0 < num_pieces opts \<Longrightarrow> start_piece opts 0 (initial_state opts input heap) = Inr s
        \<Longrightarrow> loop_head dbg opts input heap 0 s"
  | next_pass:
      "loop_head dbg opts input heap piece_num s \<Longrightarrow> to_read s \<noteq> 0
        \<Longrightarrow> loop_body dbg opts input piece_num s = Inr s'
        \<Longrightarrow> loop_head dbg opts input heap piece_num s'"
  | next_piece:
      "loop_head dbg opts input heap piece_num s \<Longrightarrow> to_read s = 0
        \<Longrightarrow> piece_num + 1 < num_pieces opts
        \<Longrightarrow> start_piece opts (piece_num + 1) s = Inr s'
        \<Longrightarrow> loop_head dbg opts input heap (piece_num + 1) s'"

text \<open>
  The state in which piece \<open>piece_num\<close> starts, before its budget is computed: the
  initial state for the first piece, and for a later one the state in which the
  loop of the piece before has used up its budget.
\<close>

definition piece_start :: "bool \<Rightarrow> split_Opts_t \<Rightarrow> string \<Rightarrow> mem \<Rightarrow> int \<Rightarrow> split_state \<Rightarrow> bool" where
  "piece_start dbg opts input heap piece_num s \<longleftrightarrow>
     (piece_num = 0 \<and> s = initial_state opts input heap)
   \<or> (loop_head dbg opts input heap (piece_num - 1) s \<and> to_read s = 0)"

section \<open>Invariants of the engine\<close>

text \<open>
  \<open>written\<close> is the number of input bytes already sent to the pieces. The window
  invariant says where the window lies in the buffer, that the counters agree
  with the read offset of the input, that the window holds the input bytes that
  follow the written ones, and that the pieces written so far, put end to end,
  are the written bytes. At the head of the loop the window also starts in the
  lower half or at the middle of the buffer.
\<close>

definition written :: "string \<Rightarrow> split_state \<Rightarrow> int" where
  "written input s = int (length input) - bytes_available s"

definition window_inv :: "split_Opts_t \<Rightarrow> string \<Rightarrow> split_state \<Rightarrow> bool" where
  "window_inv opts input s \<longleftrightarrow>
     0 \<le> data_start s \<and> data_start s \<le> data_end s + 1
   \<and> buffer_size opts - 1 \<le> data_end s \<and> data_end s \<le> 2 * buffer_size opts - 1
   \<and> int (input_offset s) \<le> int (length input)
   \<and> bytes_not_read s = int (length input) - int (input_offset s)
   \<and> bytes_available s = (data_end s - data_start s + 1) + bytes_not_read s
   \<and> bytes_available s \<le> int (length input)
   \<and> (\<forall>k \<in> {data_start s..data_end s}.
         double_buff s k = input ! nat (written input s + (k - data_start s)))
   \<and> concat (pieces s) = take (nat (written input s)) input"

definition engine_inv :: "split_Opts_t \<Rightarrow> string \<Rightarrow> split_state \<Rightarrow> bool" where
  "engine_inv opts input s \<longleftrightarrow> window_inv opts input s \<and> data_start s \<le> buffer_size opts"

text \<open>
  The invariant of the loop of one piece: the pieces created so far, a budget that
  is not negative, and for the last piece a budget equal to the bytes that remain.
\<close>

definition piece_inv :: "split_Opts_t \<Rightarrow> string \<Rightarrow> int \<Rightarrow> split_state \<Rightarrow> bool" where
  "piece_inv opts input piece_num s \<longleftrightarrow>
     engine_inv opts input s
   \<and> 0 \<le> piece_num \<and> int (length (pieces s)) = piece_num + 1
   \<and> 0 \<le> to_read s
   \<and> (piece_num = num_pieces opts - 1 \<longrightarrow> to_read s = bytes_available s)"

section \<open>The boundary locator: range of the result and the tie-break\<close>

lemma find_iteration_range:
  assumes "0 \<le> pb" and "pb < bs" and "0 \<le> i"
      and "find_iteration buff pb bs fb i n = Return r"
  shows "- 1 \<le> r \<and> r \<le> bs - 1 \<and> (fb \<longrightarrow> r \<noteq> - 1)"
  using assms
  by (auto simp: find_iteration_def Let_def split: if_splits)

lemma find_loop_range:
  assumes "0 \<le> pb" and "pb < bs" and "0 \<le> i"
  shows "case find_loop dbg buff pb bs fb i n of
           Inr r \<Rightarrow> r = SPLIT_BOUND_NOT_FOUND \<or> (- 1 \<le> r \<and> r \<le> bs - 1 \<and> (fb \<longrightarrow> r \<noteq> - 1))
         | Inl e \<Rightarrow> dbg \<and> e = Internal_error ''find_bound.cpp'' 138"
  using assms
proof (induction dbg buff pb bs fb i n rule: find_loop.induct)
  case (1 dbg buff pb bs fb i n)
  show ?case
    apply (subst find_loop.simps)
    using 1 find_iteration_range [of pb bs i buff fb n]
    by (auto split: iteration.splits)
qed

text \<open>
  Claim C2. For every window, every \<open>buff_size \<ge> 1\<close> and every \<open>projected_bound\<close>
  with \<open>0 \<le> projected_bound < buff_size\<close>, \<open>split_FindBound\<close> returns
  \<open>SPLIT_BOUND_NOT_FOUND\<close> or an offset from \<open>- 1\<close> to \<open>buff_size - 1\<close>, and the
  offset is not \<open>- 1\<close> when \<open>is_first_block\<close> (here \<open>first_block\<close>) holds. The build without assertions
  always returns; the debug build returns such a value too, unless it stops at
  the assertion of line 138.
\<close>

theorem split_FindBound_range:
  assumes "1 \<le> buff_size" and "0 \<le> projected_bound" and "projected_bound < buff_size"
  shows "(\<exists>r. split_FindBound dbg buff projected_bound buff_size first_block = Inr r
            \<and> (r = SPLIT_BOUND_NOT_FOUND \<or> (- 1 \<le> r \<and> r \<le> buff_size - 1))
            \<and> (first_block \<longrightarrow> r \<noteq> - 1))
         \<or> (dbg \<and> split_FindBound dbg buff projected_bound buff_size first_block
                    = Inl (Internal_error ''find_bound.cpp'' 138))"
proof -
  have eq: "split_FindBound dbg buff projected_bound buff_size first_block
            = find_loop dbg buff projected_bound buff_size first_block 0 0"
    using assms by (simp add: split_FindBound_def)
  show ?thesis
    using find_loop_range [where pb = projected_bound and bs = buff_size and i = 0 and dbg = dbg
        and buff = buff and fb = first_block and n = 0] assms
    unfolding eq
    by (cases "find_loop dbg buff projected_bound buff_size first_block 0 0")
       (auto simp: SPLIT_BOUND_NOT_FOUND_def)
qed

theorem split_FindBound_range_witness:
  "(1::int) \<le> 5 \<and> (0::int) \<le> 2 \<and> (2::int) < 5
   \<and> split_FindBound False (buffer_of ''>b\<newline>G\<newline>'') 2 5 False = Inr (- 1)
   \<and> split_FindBound False (buffer_of ''>b\<newline>G\<newline>'') 2 5 True = Inr 4"
proof -
  have a: "split_FindBound False (buffer_of ''>b\<newline>G\<newline>'') 2 5 False = Inr (- 1)"
    by code_simp
  have b: "split_FindBound False (buffer_of ''>b\<newline>G\<newline>'') 2 5 True = Inr 4"
    by code_simp
  show ?thesis
    using split_FindBound_range [where buff_size = 5 and projected_bound = 2 and dbg = False
        and buff = "buffer_of ''>b\<newline>G\<newline>''" and first_block = True] a b
    by simp
qed

lemma find_loop_return:
  assumes "i < max (pb + 1) (bs - pb)" and "find_iteration buff pb bs fb i n = Return r"
  shows "find_loop dbg buff pb bs fb i n = Inr r"
  using assms by (subst find_loop.simps) simp

lemma find_loop_continue:
  assumes "i < max (pb + 1) (bs - pb)" and "find_iteration buff pb bs fb i n = Continue m"
  shows "find_loop dbg buff pb bs fb i n =
           (if dbg \<and> \<not> m \<le> 2 then Inl (Internal_error ''find_bound.cpp'' 138)
            else find_loop dbg buff pb bs fb (i + 1) m)"
  using assms by (subst find_loop.simps) simp

text \<open>
  With markers at both ends of radius \<open>i\<close> and none nearer, every radius \<open>j\<close> up to
  \<open>i\<close> leads to the left bound (or, in the debug build, to the assertion).
\<close>

lemma find_loop_left_first:
  assumes "0 < i" and "i \<le> pb" and "pb + i < bs"
      and "buff (pb - i) = CHR ''>''"
      and "i < pb \<or> \<not> fb"
      and "\<forall>j. 0 \<le> j \<and> j < i \<longrightarrow> buff (pb - j) \<noteq> CHR ''>'' \<and> buff (pb + j) \<noteq> CHR ''>''"
      and "0 \<le> j" and "j \<le> i"
  shows "find_loop dbg buff pb bs fb j n = Inr (pb - i - 1)
         \<or> (dbg \<and> find_loop dbg buff pb bs fb j n = Inl (Internal_error ''find_bound.cpp'' 138))"
  using assms(7,8)
proof (induction "nat (i - j)" arbitrary: j n)
  case 0
  then have "j = i" by simp
  have "find_iteration buff pb bs fb i n = Return (pb - i - 1)"
    using assms(1-5) by (auto simp: find_iteration_def Let_def)
  moreover have "i < max (pb + 1) (bs - pb)"
    using assms(1-3) by linarith
  ultimately show ?case
    using \<open>j = i\<close> by (simp add: find_loop_return)
next
  case (Suc d)
  then have lt: "j < i" by linarith
  with Suc.prems assms(6) have no: "buff (pb - j) \<noteq> CHR ''>''" "buff (pb + j) \<noteq> CHR ''>''"
    by auto
  obtain m where it: "find_iteration buff pb bs fb j n = Continue m"
    using no lt assms(1-3) Suc.prems
    by (auto simp: find_iteration_def Let_def)
  have d: "d = nat (i - (j + 1))" using Suc.hyps(2) by linarith
  from Suc.hyps(1) [OF d, of m] lt Suc.prems
  have ih: "find_loop dbg buff pb bs fb (j + 1) m = Inr (pb - i - 1)
         \<or> (dbg \<and> find_loop dbg buff pb bs fb (j + 1) m = Inl (Internal_error ''find_bound.cpp'' 138))"
    by simp
  have inb: "j < max (pb + 1) (bs - pb)" using lt assms(1-3) by linarith
  show ?case
    using ih by (auto simp: find_loop_continue [OF inb it])
qed

text \<open>
  Claim C9. Let the bytes at \<open>projected_bound - i\<close> and \<open>projected_bound + i\<close> both be
  the marker, for a radius \<open>i > 0\<close> with both offsets inside the window, and let the
  left return not be suppressed (\<open>i < projected_bound\<close> or not the first block).
  Then the search loop at radius \<open>i\<close> returns the left bound
  \<open>projected_bound - i - 1\<close>, whatever the counter. When the search reaches that
  radius, that is when no marker lies nearer to \<open>projected_bound\<close>, this is the
  result of \<open>split_FindBound\<close>, and it is not the right bound
  \<open>projected_bound + i - 1\<close>. The debug build returns the same bound unless it
  stops at the assertion of line 138 before.
\<close>

theorem split_FindBound_left_first:
  assumes "0 < i" and "i \<le> projected_bound" and "projected_bound + i < buff_size"
      and "buff (projected_bound - i) = CHR ''>''"
      and "buff (projected_bound + i) = CHR ''>''"
      and "i < projected_bound \<or> \<not> first_block"
      and "\<forall>j. 0 \<le> j \<and> j < i \<longrightarrow>
             buff (projected_bound - j) \<noteq> CHR ''>'' \<and> buff (projected_bound + j) \<noteq> CHR ''>''"
  shows "find_loop dbg buff projected_bound buff_size first_block i n = Inr (projected_bound - i - 1)
       \<and> split_FindBound False buff projected_bound buff_size first_block
           = Inr (projected_bound - i - 1)
       \<and> split_FindBound False buff projected_bound buff_size first_block
           \<noteq> Inr (projected_bound + i - 1)
       \<and> (split_FindBound True buff projected_bound buff_size first_block
             = Inr (projected_bound - i - 1)
           \<or> split_FindBound True buff projected_bound buff_size first_block
             = Inl (Internal_error ''find_bound.cpp'' 138))"
proof -
  have "find_iteration buff projected_bound buff_size first_block i n
        = Return (projected_bound - i - 1)"
    using assms(1-4,6) by (auto simp: find_iteration_def Let_def)
  moreover have "i < max (projected_bound + 1) (buff_size - projected_bound)"
    using assms(1-3) by linarith
  ultimately have at_i:
    "find_loop dbg buff projected_bound buff_size first_block i n = Inr (projected_bound - i - 1)"
    by (rule find_loop_return [rotated])
  have pre: "0 \<le> projected_bound" "projected_bound < buff_size"
    using assms(1-3) by linarith+
  have whole: "find_loop d buff projected_bound buff_size first_block 0 0
                 = Inr (projected_bound - i - 1)
               \<or> (d \<and> find_loop d buff projected_bound buff_size first_block 0 0
                     = Inl (Internal_error ''find_bound.cpp'' 138))" for d
    using find_loop_left_first [OF assms(1-4,6,7), of 0 d 0] assms(1) by simp
  have prod: "split_FindBound False buff projected_bound buff_size first_block
                = Inr (projected_bound - i - 1)"
    using whole [of False] pre by (simp add: split_FindBound_def)
  have deb: "split_FindBound True buff projected_bound buff_size first_block
               = Inr (projected_bound - i - 1)
             \<or> split_FindBound True buff projected_bound buff_size first_block
               = Inl (Internal_error ''find_bound.cpp'' 138)"
    using whole [of True] pre by (simp add: split_FindBound_def)
  from at_i prod deb assms(1) show ?thesis by simp
qed

theorem split_FindBound_left_first_witness:
  "(0::int) < 2 \<and> (2::int) \<le> 3 \<and> (3::int) + 2 < 7
   \<and> buffer_of ''x>xxx>x'' (3 - 2) = CHR ''>'' \<and> buffer_of ''x>xxx>x'' (3 + 2) = CHR ''>''
   \<and> split_FindBound False (buffer_of ''x>xxx>x'') 3 7 True = Inr 0"
proof -
  have l: "buffer_of ''x>xxx>x'' (3 - 2) = CHR ''>''"
    by (simp add: buffer_of_def store_bytes_def)
  have r: "buffer_of ''x>xxx>x'' (3 + 2) = CHR ''>''"
    by (simp add: buffer_of_def store_bytes_def)
  have nearer: "\<forall>j. 0 \<le> j \<and> j < 2 \<longrightarrow>
      buffer_of ''x>xxx>x'' (3 - j) \<noteq> CHR ''>'' \<and> buffer_of ''x>xxx>x'' (3 + j) \<noteq> CHR ''>''"
  proof (intro allI impI)
    fix j :: int
    assume "0 \<le> j \<and> j < 2"
    then have "j = 0 \<or> j = 1" by linarith
    then show "buffer_of ''x>xxx>x'' (3 - j) \<noteq> CHR ''>''
             \<and> buffer_of ''x>xxx>x'' (3 + j) \<noteq> CHR ''>''"
      by (auto simp: buffer_of_def store_bytes_def)
  qed
  show ?thesis
    using split_FindBound_left_first [where i = 2 and projected_bound = 3 and buff_size = 7
        and buff = "buffer_of ''x>xxx>x''" and first_block = True, OF _ _ _ l r _ nearer] l r
    by simp
qed

text \<open>
  Claim C10 says that the counter \<open>num_new_lines\<close> is at most 2 at the end of every
  iteration, so that the assertion of line 138 cannot fail. It can: in a window
  of three line feeds searched from the middle, the iteration at radius 1 counts
  the left and the right byte and takes the counter from 1 to 3. The debug build
  stops there; the other build goes on and finds no bound. A file whose
  sequences are wrapped over several lines takes a whole run there.
\<close>

theorem num_new_lines_exceeds_two:
  "find_iteration (buffer_of ''\<newline>\<newline>\<newline>'') 1 3 False 0 0 = Continue 1
   \<and> find_iteration (buffer_of ''\<newline>\<newline>\<newline>'') 1 3 False 1 1 = Continue 3
   \<and> split_FindBound True (buffer_of ''\<newline>\<newline>\<newline>'') 1 3 False
       = Inl (Internal_error ''find_bound.cpp'' 138)
   \<and> split_FindBound False (buffer_of ''\<newline>\<newline>\<newline>'') 1 3 False
       = Inr SPLIT_BOUND_NOT_FOUND
   \<and> split_SplitSource True \<lparr>num_pieces = 2, buffer_size = 100\<rparr>
         ''>a\<newline>A\<newline>C\<newline>G\<newline>T\<newline>>b\<newline>A\<newline>'' (buffer_of [])
       = Inl (Internal_error ''find_bound.cpp'' 138, [[]])"
proof -
  have a: "find_iteration (buffer_of ''\<newline>\<newline>\<newline>'') 1 3 False 0 0 = Continue 1"
    by code_simp
  have b: "find_iteration (buffer_of ''\<newline>\<newline>\<newline>'') 1 3 False 1 1 = Continue 3"
    by code_simp
  have c: "split_FindBound True (buffer_of ''\<newline>\<newline>\<newline>'') 1 3 False
             = Inl (Internal_error ''find_bound.cpp'' 138)"
    by code_simp
  have d: "split_FindBound False (buffer_of ''\<newline>\<newline>\<newline>'') 1 3 False
             = Inr SPLIT_BOUND_NOT_FOUND"
    by code_simp
  have e: "split_SplitSource True \<lparr>num_pieces = 2, buffer_size = 100\<rparr>
             ''>a\<newline>A\<newline>C\<newline>G\<newline>T\<newline>>b\<newline>A\<newline>'' (buffer_of [])
           = Inl (Internal_error ''find_bound.cpp'' 138, [[]])"
    by code_simp
  from a b c d e show ?thesis by simp
qed

section \<open>The engine keeps every byte, in order\<close>

lemma length_load_bytes: "length (load_bytes buff at n) = nat n"
  by (simp add: load_bytes_def)

lemma nth_load_bytes: "k < nat n \<Longrightarrow> load_bytes buff at n ! k = buff (at + int k)"
  by (simp add: load_bytes_def)

lemma refill_same:
  assumes "refill dbg opts input s = Inr s1"
  shows "pieces s1 = pieces s" and "to_read s1 = to_read s"
    and "bytes_available s1 = bytes_available s" and "is_first_block s1 = is_first_block s"
    and "data_start s1 = data_start s"
  using assms
  by (auto simp: refill_def Let_def split: if_splits sum.splits prod.splits)

lemma refill_result:
  assumes r: "refill dbg opts input s = Inr s1"
  shows "(data_end s \<noteq> buffer_size opts - 1 \<or> bytes_not_read s = 0) \<and> s1 = s
       \<or> (\<exists>io got. data_end s = buffer_size opts - 1 \<and> bytes_not_read s \<noteq> 0
             \<and> io = (if buffer_size opts > bytes_not_read s then bytes_not_read s
                      else buffer_size opts)
             \<and> got = take (nat io) (drop (input_offset s) input)
             \<and> int (length got) = io
             \<and> s1 = s\<lparr>double_buff := store_bytes (double_buff s) (buffer_size opts) got,
                       data_end := data_end s + io,
                       bytes_not_read := bytes_not_read s - io,
                       input_offset := input_offset s + length got\<rparr>)"
  using r
  by (auto simp: refill_def split_FillUpperBuffHalfFromInput_def Let_def
           split: if_splits sum.splits prod.splits)

lemma refill_inv:
  assumes bs: "1 \<le> buffer_size opts"
      and inv: "engine_inv opts input s"
      and r: "refill dbg opts input s = Inr s1"
  shows "engine_inv opts input s1
       \<and> (data_end s1 - data_start s1 + 1 = 0 \<longrightarrow> bytes_not_read s1 = 0)"
proof -
  from refill_result [OF r] consider
      (same) "\<not> (data_end s = buffer_size opts - 1 \<and> bytes_not_read s \<noteq> 0)" "s1 = s"
    | (filled) io got where "data_end s = buffer_size opts - 1" "bytes_not_read s \<noteq> 0"
        "io = (if buffer_size opts > bytes_not_read s then bytes_not_read s
               else buffer_size opts)"
        "got = take (nat io) (drop (input_offset s) input)"
        "int (length got) = io"
        "s1 = s\<lparr>double_buff := store_bytes (double_buff s) (buffer_size opts) got,
                  data_end := data_end s + io,
                  bytes_not_read := bytes_not_read s - io,
                  input_offset := input_offset s + length got\<rparr>"
    by blast
  then show ?thesis
  proof cases
    case same
    with inv show ?thesis
      unfolding engine_inv_def window_inv_def by auto
  next
    case (filled io got)
    note de = filled(1) and nr = filled(2) and io = filled(3) and got = filled(4)
      and len = filled(5) and s1 = filled(6)
    from inv have w: "window_inv opts input s" and ds: "data_start s \<le> buffer_size opts"
      by (simp_all add: engine_inv_def)
    from w have nr0: "0 \<le> bytes_not_read s"
      and off: "bytes_not_read s = int (length input) - int (input_offset s)"
      and av: "bytes_available s = (data_end s - data_start s + 1) + bytes_not_read s"
      by (simp_all add: window_inv_def)
    from nr nr0 io bs have io_pos: "0 < io" and io_bs: "io \<le> buffer_size opts"
      and io_nr: "io \<le> bytes_not_read s"
      by (auto split: if_splits)
    have got_nth: "got ! nat j = input ! nat (int (input_offset s) + j)" if "0 \<le> j" "j < io" for j
    proof -
      have "nat j < nat io" using that by linarith
      moreover have "input_offset s \<le> length input" using off nr0 by linarith
      ultimately have "got ! nat j = input ! (input_offset s + nat j)"
        unfolding got by simp
      moreover have "input_offset s + nat j = nat (int (input_offset s) + j)"
        using that by linarith
      ultimately show ?thesis by simp
    qed
    have cells: "double_buff s1 k = input ! nat (written input s1 + (k - data_start s1))"
      if k: "k \<in> {data_start s1..data_end s1}" for k
    proof (cases "k < buffer_size opts")
      case True
      with k have "k \<in> {data_start s..data_end s}" by (simp add: s1 de)
      with w have "double_buff s k = input ! nat (written input s + (k - data_start s))"
        by (simp add: window_inv_def)
      with True show ?thesis by (simp add: s1 store_bytes_def written_def)
    next
      case False
      with k len have in_got: "0 \<le> k - buffer_size opts" "k - buffer_size opts < io"
        by (simp_all add: s1 de)
      have "double_buff s1 k = got ! nat (k - buffer_size opts)"
        using False in_got len by (simp add: s1 store_bytes_def)
      also have "\<dots> = input ! nat (int (input_offset s) + (k - buffer_size opts))"
        by (rule got_nth [OF in_got])
      also have "int (input_offset s) + (k - buffer_size opts)
                 = written input s1 + (k - data_start s1)"
        using off av de by (simp add: s1 written_def)
      finally show ?thesis .
    qed
    have "window_inv opts input s1"
      unfolding window_inv_def
    proof (intro conjI ballI)
      show "double_buff s1 k = input ! nat (written input s1 + (k - data_start s1))"
        if "k \<in> {data_start s1..data_end s1}" for k
        using that by (rule cells)
    qed (use w io_pos io_bs io_nr len de in \<open>auto simp: s1 window_inv_def written_def\<close>)
    moreover have "data_start s1 \<le> buffer_size opts" using ds by (simp add: s1)
    moreover have "data_end s1 - data_start s1 + 1 \<noteq> 0"
      using ds de io_pos by (simp add: s1)
    ultimately show ?thesis by (simp add: engine_inv_def)
  qed
qed


lemma split_FindBound_bound:
  assumes "0 \<le> pb" and "pb < bs"
      and "split_FindBound dbg buff pb bs fb = Inr r" and "r \<noteq> SPLIT_BOUND_NOT_FOUND"
  shows "- 1 \<le> r \<and> r \<le> bs - 1"
  using assms find_loop_range [where pb = pb and bs = bs and i = 0 and dbg = dbg
      and buff = buff and fb = fb and n = 0]
  by (simp add: split_FindBound_def)

lemma calc_result:
  assumes bs: "1 \<le> buff_size" and win: "ds \<le> de + 1" and pm: "0 < pm"
      and c: "split_CalcUpperBoundOfOutputTransfer dbg buff buff_size ds de pm fb eoi lp = Inr oce"
  shows "(de - ds + 1 < pm \<and> buff_size \<le> de - ds + 1 \<and> oce = ds + buff_size - 1)
       \<or> (de - ds + 1 < pm \<and> de - ds + 1 < buff_size \<and> oce = de)
       \<or> (pm \<le> de - ds + 1 \<and> lp \<and> oce = de)
       \<or> (pm \<le> de - ds + 1 \<and> \<not> lp \<and> ds - 1 \<le> oce \<and> oce \<le> de)"
proof (cases "pm \<le> de - ds + 1 \<and> \<not> lp")
  case False
  with c show ?thesis
    by (auto simp: split_CalcUpperBoundOfOutputTransfer_def Let_def split: if_splits)
next
  case True
  then have pb: "0 \<le> pm - 1" "pm - 1 < de - ds + 1" using pm by simp_all
  show ?thesis
  proof (cases "split_FindBound dbg (shift_ptr buff ds) (pm - 1) (de - ds + 1) fb")
    case (Inl e)
    with c True show ?thesis
      by (auto simp: split_CalcUpperBoundOfOutputTransfer_def Let_def split: if_splits)
  next
    case (Inr r)
    show ?thesis
    proof (cases "r = SPLIT_BOUND_NOT_FOUND")
      case True
      with c Inr \<open>pm \<le> de - ds + 1 \<and> \<not> lp\<close> win show ?thesis
        by (auto simp: split_CalcUpperBoundOfOutputTransfer_def Let_def split: if_splits)
    next
      case False
      from split_FindBound_bound [OF pb Inr False] have "- 1 \<le> r \<and> r \<le> de - ds" by simp
      with c Inr False True show ?thesis
        by (auto simp: split_CalcUpperBoundOfOutputTransfer_def Let_def split: if_splits)
    qed
  qed
qed

lemma calc_range:
  assumes "1 \<le> buff_size" and "ds \<le> de + 1" and "0 < pm"
      and "split_CalcUpperBoundOfOutputTransfer dbg buff buff_size ds de pm fb eoi lp = Inr oce"
  shows "ds - 1 \<le> oce \<and> oce \<le> de"
  using calc_result [OF assms] assms(1,2) by auto


lemma transfer_result:
  assumes "transfer dbg opts piece_num s = Inr s2"
  shows "\<exists>oce. split_CalcUpperBoundOfOutputTransfer dbg (double_buff s) (buffer_size opts)
                 (data_start s) (data_end s) (to_read s) (is_first_block s)
                 (bytes_not_read s = 0) (piece_num = num_pieces opts - 1) = Inr oce
             \<and> s2 = s\<lparr>to_read :=
                         (if oce < data_start s then 0
                          else if oce - data_start s + 1 > to_read s then 0
                          else to_read s - (oce - data_start s + 1)),
                       pieces := append_to_open_piece (pieces s)
                         (load_bytes (double_buff s) (data_start s) (oce - data_start s + 1)),
                       bytes_available := bytes_available s - (oce - data_start s + 1),
                       data_start := oce + 1,
                       is_first_block := False\<rparr>"
  using assms
  by (auto simp: transfer_def split_WriteOutput_def Let_def split: sum.splits if_splits)

lemma window_prefix:
  assumes w: "window_inv opts input s" and n: "0 \<le> n" "n \<le> data_end s - data_start s + 1"
  shows "load_bytes (double_buff s) (data_start s) n
         = take (nat n) (drop (nat (written input s)) input)"
proof (rule nth_equalityI)
  from w have fit: "0 \<le> written input s"
      "written input s + (data_end s - data_start s + 1) \<le> int (length input)"
    by (auto simp: window_inv_def written_def)
  with n show len: "length (load_bytes (double_buff s) (data_start s) n)
        = length (take (nat n) (drop (nat (written input s)) input))"
    by (simp add: length_load_bytes)
  fix i
  assume "i < length (load_bytes (double_buff s) (data_start s) n)"
  then have i: "i < nat n" by (simp add: length_load_bytes)
  with n have "data_start s + int i \<in> {data_start s..data_end s}" by simp
  with w have "double_buff s (data_start s + int i) = input ! nat (written input s + int i)"
    unfolding window_inv_def by fastforce
  moreover have "nat (written input s + int i) = nat (written input s) + i"
    using fit by linarith
  moreover have "nat (written input s) \<le> length input" using fit n by linarith
  ultimately show "load_bytes (double_buff s) (data_start s) n ! i
        = take (nat n) (drop (nat (written input s)) input) ! i"
    using i by (simp add: nth_load_bytes)
qed

lemma concat_append_to_open_piece:
  "ps \<noteq> [] \<Longrightarrow> concat (append_to_open_piece ps bytes) = concat ps @ bytes"
  by (induction ps rule: rev_induct) (simp_all add: append_to_open_piece_def)

lemma length_append_to_open_piece:
  "ps \<noteq> [] \<Longrightarrow> length (append_to_open_piece ps bytes) = length ps"
  by (simp add: append_to_open_piece_def)

lemma transfer_inv:
  assumes bs: "1 \<le> buffer_size opts"
      and inv: "engine_inv opts input s"
      and fed: "data_end s - data_start s + 1 = 0 \<longrightarrow> bytes_not_read s = 0"
      and budget: "0 < to_read s"
      and ps: "pieces s \<noteq> []"
      and t: "transfer dbg opts piece_num s = Inr s2"
  shows "window_inv opts input s2
       \<and> length (pieces s2) = length (pieces s)
       \<and> 0 \<le> to_read s2
       \<and> (piece_num = num_pieces opts - 1 \<and> to_read s = bytes_available s
            \<longrightarrow> to_read s2 = bytes_available s2)"
proof -
  from inv have w: "window_inv opts input s" by (simp add: engine_inv_def)
  from transfer_result [OF t] obtain oce where
    c: "split_CalcUpperBoundOfOutputTransfer dbg (double_buff s) (buffer_size opts)
          (data_start s) (data_end s) (to_read s) (is_first_block s)
          (bytes_not_read s = 0) (piece_num = num_pieces opts - 1) = Inr oce" and
    s2: "s2 = s\<lparr>to_read :=
                   (if oce < data_start s then 0
                    else if oce - data_start s + 1 > to_read s then 0
                    else to_read s - (oce - data_start s + 1)),
                 pieces := append_to_open_piece (pieces s)
                   (load_bytes (double_buff s) (data_start s) (oce - data_start s + 1)),
                 bytes_available := bytes_available s - (oce - data_start s + 1),
                 data_start := oce + 1,
                 is_first_block := False\<rparr>"
    by blast
  from w have win: "data_start s \<le> data_end s + 1" by (simp add: window_inv_def)
  define n where "n = oce - data_start s + 1"
  from calc_range [OF bs win budget c] have n: "0 \<le> n" "n \<le> data_end s - data_start s + 1"
    by (simp_all add: n_def)
  from w have fit: "0 \<le> written input s"
    by (auto simp: window_inv_def written_def)
  have sent: "load_bytes (double_buff s) (data_start s) n
              = take (nat n) (drop (nat (written input s)) input)"
    by (rule window_prefix [OF w n])
  have wr: "written input s2 = written input s + n"
    by (simp add: s2 written_def n_def)
  have out: "concat (pieces s2) = take (nat (written input s2)) input"
  proof -
    have "concat (pieces s2) = concat (pieces s) @ load_bytes (double_buff s) (data_start s) n"
      using ps by (simp add: s2 n_def concat_append_to_open_piece)
    also have "\<dots> = take (nat (written input s)) input
                    @ take (nat n) (drop (nat (written input s)) input)"
      using w sent by (simp add: window_inv_def)
    also have "\<dots> = take (nat (written input s) + nat n) input"
      by (simp add: take_add)
    also have "nat (written input s) + nat n = nat (written input s2)"
      using fit n wr by linarith
    finally show ?thesis .
  qed
  have cells: "double_buff s2 k = input ! nat (written input s2 + (k - data_start s2))"
    if k: "k \<in> {data_start s2..data_end s2}" for k
  proof -
    from k n have "k \<in> {data_start s..data_end s}" by (simp add: s2 n_def)
    with w have "double_buff s k = input ! nat (written input s + (k - data_start s))"
      by (simp add: window_inv_def)
    moreover have "written input s + (k - data_start s) = written input s2 + (k - data_start s2)"
      by (simp add: wr) (simp add: s2 n_def)
    ultimately show ?thesis by (simp add: s2)
  qed
  have wi: "window_inv opts input s2"
    unfolding window_inv_def
  proof (intro conjI ballI)
    show "double_buff s2 k = input ! nat (written input s2 + (k - data_start s2))"
      if "k \<in> {data_start s2..data_end s2}" for k
      using that by (rule cells)
    show "concat (pieces s2) = take (nat (written input s2)) input" by (rule out)
  qed (use w n in \<open>auto simp: s2 window_inv_def n_def\<close>)
  have len: "length (pieces s2) = length (pieces s)"
    using ps by (simp add: s2 length_append_to_open_piece)
  have nonneg: "0 \<le> to_read s2"
    by (simp add: s2)
  have last: "to_read s2 = bytes_available s2"
    if lp: "piece_num = num_pieces opts - 1" and eq: "to_read s = bytes_available s"
  proof -
    from w have av: "bytes_available s = (data_end s - data_start s + 1) + bytes_not_read s"
      and nr: "0 \<le> bytes_not_read s"
      by (simp_all add: window_inv_def)
    from calc_result [OF bs win budget c] lp
    consider (chunk) "data_end s - data_start s + 1 < to_read s"
                     "buffer_size opts \<le> data_end s - data_start s + 1"
                     "oce = data_start s + buffer_size opts - 1"
           | (rest) "data_end s - data_start s + 1 < to_read s"
                    "data_end s - data_start s + 1 < buffer_size opts" "oce = data_end s"
           | (all) "to_read s \<le> data_end s - data_start s + 1" "oce = data_end s"
      by auto
    then show ?thesis
    proof cases
      case chunk
      with bs eq show ?thesis by (simp add: s2)
    next
      case rest
      with fed av eq budget have "0 < data_end s - data_start s + 1"
        using win by (cases "data_end s - data_start s + 1 = 0") auto
      with rest eq show ?thesis by (simp add: s2)
    next
      case all
      with av nr eq budget show ?thesis by (simp add: s2)
    qed
  qed
  from wi len nonneg last show ?thesis by simp
qed


lemma compact_same:
  "pieces (compact opts s) = pieces s" "to_read (compact opts s) = to_read s"
  "bytes_available (compact opts s) = bytes_available s"
  "bytes_not_read (compact opts s) = bytes_not_read s"
  by (simp_all add: compact_def Let_def)

lemma compact_inv:
  assumes w: "window_inv opts input s"
  shows "window_inv opts input (compact opts s)
       \<and> (data_start (compact opts s) \<le> buffer_size opts
            \<or> data_end (compact opts s) < data_start (compact opts s))"
proof (cases "data_start s \<ge> buffer_size opts \<and> data_end s - data_start s \<ge> 0")
  case False
  then have "compact opts s = s" by (auto simp: compact_def Let_def)
  with w False show ?thesis by auto
next
  case True
  define n where "n = data_end s - data_start s + 1"
  define s3 where "s3 = compact opts s"
  have s3: "s3 = s\<lparr>double_buff :=
                     store_bytes (double_buff s) (buffer_size opts - n)
                       (load_bytes (double_buff s) (data_start s) n),
                   data_start := buffer_size opts - n,
                   data_end := buffer_size opts - 1\<rparr>"
    using True by (simp add: s3_def compact_def Let_def n_def)
  from w True have n: "0 < n" "n \<le> buffer_size opts"
    by (auto simp: window_inv_def n_def)
  have cells: "double_buff s3 k = input ! nat (written input s3 + (k - data_start s3))"
    if k: "k \<in> {data_start s3..data_end s3}" for k
  proof -
    from k have r: "buffer_size opts - n \<le> k" "k < buffer_size opts" by (simp_all add: s3)
    then have i: "nat (k - (buffer_size opts - n)) < nat n" by linarith
    have "double_buff s3 k
          = load_bytes (double_buff s) (data_start s) n ! nat (k - (buffer_size opts - n))"
      using r n by (simp add: s3 store_bytes_def length_load_bytes)
    also have "\<dots> = double_buff s (data_start s + (k - (buffer_size opts - n)))"
      using i r by (simp add: nth_load_bytes)
    also have "\<dots> = input ! nat (written input s
                       + (data_start s + (k - (buffer_size opts - n)) - data_start s))"
    proof -
      have "data_start s + (k - (buffer_size opts - n)) \<in> {data_start s..data_end s}"
        using r by (simp add: n_def)
      with w show ?thesis unfolding window_inv_def by blast
    qed
    also have "written input s + (data_start s + (k - (buffer_size opts - n)) - data_start s)
               = written input s3 + (k - data_start s3)"
      by (simp add: s3 written_def)
    finally show ?thesis .
  qed
  have "window_inv opts input s3"
    unfolding window_inv_def
  proof (intro conjI ballI)
    show "double_buff s3 k = input ! nat (written input s3 + (k - data_start s3))"
      if "k \<in> {data_start s3..data_end s3}" for k
      using that by (rule cells)
  qed (use w n in \<open>auto simp: s3 window_inv_def n_def written_def\<close>)
  moreover have "data_start s3 \<le> buffer_size opts" using n by (simp add: s3)
  ultimately show ?thesis by (simp add: s3_def)
qed

lemma reinitialize_same:
  assumes "reinitialize dbg opts s = Inr s'"
  shows "pieces s' = pieces s" and "to_read s' = to_read s"
    and "bytes_available s' = bytes_available s"
  using assms by (auto simp: reinitialize_def Let_def split: if_splits)

lemma reinitialize_inv:
  assumes bs: "1 \<le> buffer_size opts"
      and w: "window_inv opts input s"
      and ds: "data_start s \<le> buffer_size opts \<or> data_end s < data_start s"
      and r: "reinitialize dbg opts s = Inr s'"
  shows "engine_inv opts input s'"
proof (cases "data_start s > data_end s")
  case False
  with r have "s' = s" by (simp add: reinitialize_def)
  with w ds False show ?thesis by (simp add: engine_inv_def)
next
  case True
  with r have s': "s' = s\<lparr>data_start := buffer_size opts, data_end := buffer_size opts - 1\<rparr>"
    by (auto simp: reinitialize_def Let_def split: if_splits)
  from w True have "data_end s - data_start s + 1 = 0" by (simp add: window_inv_def)
  with w bs show ?thesis
    by (auto simp: s' engine_inv_def window_inv_def written_def)
qed

lemma loop_body_inv:
  assumes bs: "1 \<le> buffer_size opts"
      and inv: "piece_inv opts input piece_num s"
      and budget: "to_read s \<noteq> 0"
      and b: "loop_body dbg opts input piece_num s = Inr s'"
  shows "piece_inv opts input piece_num s'"
proof -
  from b obtain s1 s2 where
    r: "refill dbg opts input s = Inr s1" and
    t: "transfer dbg opts piece_num s1 = Inr s2" and
    i: "reinitialize dbg opts (compact opts s2) = Inr s'"
    by (auto simp: loop_body_def split: sum.splits)
  from inv have e: "engine_inv opts input s" and k: "0 \<le> piece_num"
    and len: "int (length (pieces s)) = piece_num + 1" and tr: "0 \<le> to_read s"
    and lp: "piece_num = num_pieces opts - 1 \<longrightarrow> to_read s = bytes_available s"
    by (simp_all add: piece_inv_def)
  from refill_inv [OF bs e r] have e1: "engine_inv opts input s1"
    and fed: "data_end s1 - data_start s1 + 1 = 0 \<longrightarrow> bytes_not_read s1 = 0"
    by simp_all
  have ps1: "pieces s1 \<noteq> []" using len k refill_same(1) [OF r] by auto
  have tr1: "0 < to_read s1" using tr budget refill_same(2) [OF r] by simp
  from transfer_inv [OF bs e1 fed tr1 ps1 t]
  have w2: "window_inv opts input s2" and len2: "length (pieces s2) = length (pieces s1)"
    and tr2: "0 \<le> to_read s2"
    and lp2: "piece_num = num_pieces opts - 1 \<and> to_read s1 = bytes_available s1
              \<longrightarrow> to_read s2 = bytes_available s2"
    by simp_all
  from compact_inv [OF w2] have w3: "window_inv opts input (compact opts s2)"
    and ds3: "data_start (compact opts s2) \<le> buffer_size opts
              \<or> data_end (compact opts s2) < data_start (compact opts s2)"
    by simp_all
  from reinitialize_inv [OF bs w3 ds3 i] have e': "engine_inv opts input s'" .
  from reinitialize_same [OF i] have same: "pieces s' = pieces s2" "to_read s' = to_read s2"
    "bytes_available s' = bytes_available s2"
    by (simp_all add: compact_same)
  from e' k len len2 tr2 lp lp2 same refill_same [OF r] show ?thesis
    by (simp add: piece_inv_def)
qed

lemma while_to_read_inv:
  assumes bs: "1 \<le> buffer_size opts"
      and inv: "piece_inv opts input piece_num s"
      and w: "while_to_read dbg opts input piece_num s = Inr s'"
  shows "piece_inv opts input piece_num s' \<and> to_read s' = 0"
  using bs inv w
proof (induction dbg opts input piece_num s rule: while_to_read.induct)
  case (1 dbg opts input piece_num s)
  show ?case
  proof (cases "to_read s = 0")
    case True
    with "1.prems" show ?thesis by (subst (asm) while_to_read.simps) auto
  next
    case False
    from "1.prems"(3) False obtain s1 where
      b: "loop_body dbg opts input piece_num s = Inr s1" and
      rest: "while_to_read dbg opts input piece_num s1 = Inr s'"
      by (subst (asm) while_to_read.simps) (auto split: sum.splits)
    from loop_body_inv [OF "1.prems"(1,2) False b]
    have "piece_inv opts input piece_num s1" .
    from "1.IH" [OF False b "1.prems"(1) this rest] show ?thesis .
  qed
qed

lemma sdiv_pos: "0 \<le> a \<Longrightarrow> 0 < b \<Longrightarrow> (a::int) sdiv b = a div b"
  by (simp add: signed_divide_int_def sgn_if)

lemma smod_pos: "0 \<le> a \<Longrightarrow> 0 < b \<Longrightarrow> (a::int) smod b = a mod b"
  by (simp add: signed_modulo_int_def sgn_if)

lemma projected_size_pos:
  assumes "0 \<le> b" and "k < p"
  shows "projected_size b p k = (if b mod (p - k) \<noteq> 0 then b div (p - k) + 1 else b div (p - k))"
  using assms by (simp add: projected_size_def Let_def sdiv_pos smod_pos)

lemma projected_size_nonneg:
  assumes "0 \<le> b" and "k < p"
  shows "0 \<le> projected_size b p k"
  using assms by (simp add: projected_size_pos pos_imp_zdiv_nonneg_iff)

lemma projected_size_last:
  assumes "0 \<le> b"
  shows "projected_size b p (p - 1) = b"
  using assms by (simp add: projected_size_pos)

lemma engine_inv_available:
  assumes "engine_inv opts input s"
  shows "0 \<le> bytes_available s"
  using assms by (auto simp: engine_inv_def window_inv_def)

lemma start_piece_inv:
  assumes e: "engine_inv opts input s"
      and k: "0 \<le> piece_num" "piece_num < num_pieces opts"
      and len: "int (length (pieces s)) = piece_num"
      and st: "start_piece opts piece_num s = Inr s1"
  shows "piece_inv opts input piece_num s1"
proof -
  from st have s1: "s1 = s\<lparr>to_read := projected_size (bytes_available s) (num_pieces opts) piece_num,
                           is_first_block := True, pieces := pieces s @ [[]]\<rparr>"
    by (auto simp: start_piece_def Let_def split: if_splits)
  have "engine_inv opts input s1"
    using e by (simp add: s1 engine_inv_def window_inv_def written_def)
  moreover have "0 \<le> to_read s1"
    using projected_size_nonneg [OF engine_inv_available [OF e] k(2)] by (simp add: s1)
  moreover have "to_read s1 = bytes_available s1" if "piece_num = num_pieces opts - 1"
    using projected_size_last [OF engine_inv_available [OF e], of "num_pieces opts"] that
    by (simp add: s1)
  ultimately show ?thesis
    using k len by (simp add: piece_inv_def s1)
qed

lemma for_pieces_inv:
  assumes bs: "1 \<le> buffer_size opts"
      and e: "engine_inv opts input s"
      and k: "0 \<le> piece_num" "piece_num \<le> num_pieces opts"
      and len: "int (length (pieces s)) = piece_num"
      and fin: "piece_num = num_pieces opts \<longrightarrow> bytes_available s = 0"
      and f: "for_pieces dbg opts input piece_num s = Inr s'"
  shows "engine_inv opts input s' \<and> int (length (pieces s')) = num_pieces opts
       \<and> bytes_available s' = 0"
  using bs e k len fin f
proof (induction dbg opts input piece_num s rule: for_pieces.induct)
  case (1 dbg opts input piece_num s)
  show ?case
  proof (cases "piece_num < num_pieces opts")
    case False
    with "1.prems" show ?thesis by (subst (asm) for_pieces.simps) auto
  next
    case True
    from "1.prems"(7) True obtain s1 s2 where
      st: "start_piece opts piece_num s = Inr s1" and
      w: "while_to_read dbg opts input piece_num s1 = Inr s2" and
      rest: "for_pieces dbg opts input (piece_num + 1) s2 = Inr s'"
      by (subst (asm) for_pieces.simps) (auto split: sum.splits)
    from start_piece_inv [OF "1.prems"(2,3) True "1.prems"(5) st]
    have "piece_inv opts input piece_num s1" .
    from while_to_read_inv [OF "1.prems"(1) this w]
    have p2: "piece_inv opts input piece_num s2" and z: "to_read s2 = 0" by simp_all
    from p2 have e2: "engine_inv opts input s2"
      and len2: "int (length (pieces s2)) = piece_num + 1"
      and lp: "piece_num = num_pieces opts - 1 \<longrightarrow> to_read s2 = bytes_available s2"
      by (simp_all add: piece_inv_def)
    have k2: "0 \<le> piece_num + 1" "piece_num + 1 \<le> num_pieces opts"
      using "1.prems"(3) True by simp_all
    have fin2: "piece_num + 1 = num_pieces opts \<longrightarrow> bytes_available s2 = 0"
      using lp z by auto
    from "1.IH" [OF True st w "1.prems"(1) e2 k2 len2 fin2 rest] show ?thesis .
  qed
qed

lemma initial_state_inv:
  assumes "1 \<le> buffer_size opts"
  shows "engine_inv opts input (initial_state opts input heap)"
  using assms by (simp add: engine_inv_def window_inv_def initial_state_def written_def)

lemma loop_head_inv:
  assumes "loop_head dbg opts input heap piece_num s" and bs: "1 \<le> buffer_size opts"
  shows "piece_inv opts input piece_num s"
  using assms(1)
proof (induction rule: loop_head.induct)
  case (first_piece s)
  show ?case
    by (rule start_piece_inv [OF initial_state_inv [OF bs] _ first_piece(1) _ first_piece(2)])
       (simp_all add: initial_state_def)
next
  case (next_pass piece_num s s')
  then show ?case using loop_body_inv [OF bs] by blast
next
  case (next_piece piece_num s s')
  from next_piece.IH have "engine_inv opts input s" "0 \<le> piece_num + 1"
    "int (length (pieces s)) = piece_num + 1"
    by (simp_all add: piece_inv_def)
  from start_piece_inv [OF this(1,2) next_piece.hyps(3) this(3) next_piece.hyps(4)]
  show ?case .
qed

text \<open>
  With a chunk size of at least 1 the engine keeps every byte. Whenever a run of
  \<open>split_SplitSource\<close> completes (either build), the output pieces, concatenated
  in the order of their numbers, are the input byte for byte, and there are
  \<open>num_pieces\<close> of them. At least one piece is asked for (the command line admits
  only \<open>num_pieces \<ge> 2\<close>).
\<close>

theorem split_SplitSource_concat:
  assumes "1 \<le> buffer_size opts" and "1 \<le> num_pieces opts"
      and "split_SplitSource dbg opts input heap = Inr outs"
  shows "concat outs = input \<and> int (length outs) = num_pieces opts"
proof -
  from assms(3) obtain s' where
    f: "for_pieces dbg opts input 0 (initial_state opts input heap) = Inr s'" and
    outs: "outs = pieces s'"
    by (auto simp: split_SplitSource_def split: if_splits sum.splits)
  have "engine_inv opts input s' \<and> int (length (pieces s')) = num_pieces opts
        \<and> bytes_available s' = 0"
    using assms(2)
    by (intro for_pieces_inv [OF assms(1) initial_state_inv [OF assms(1)] _ _ _ _ f])
       (simp_all add: initial_state_def)
  then have "concat (pieces s') = take (nat (written input s')) input"
    and "written input s' = int (length input)"
    and "int (length (pieces s')) = num_pieces opts"
    by (simp_all add: engine_inv_def window_inv_def written_def)
  then show ?thesis
    by (simp add: outs)
qed

theorem split_SplitSource_concat_witness:
  "(1::int) \<le> buffer_size \<lparr>num_pieces = 2, buffer_size = 5\<rparr>
   \<and> (1::int) \<le> num_pieces \<lparr>num_pieces = 2, buffer_size = 5\<rparr>
   \<and> split_SplitSource False \<lparr>num_pieces = 2, buffer_size = 5\<rparr>
         ''>a\<newline>C\<newline>>b\<newline>G\<newline>>c\<newline>T\<newline>'' (buffer_of [])
       = Inr [''>a\<newline>C\<newline>'', ''>b\<newline>G\<newline>>c\<newline>T\<newline>'']
   \<and> concat [''>a\<newline>C\<newline>'', ''>b\<newline>G\<newline>>c\<newline>T\<newline>'']
       = ''>a\<newline>C\<newline>>b\<newline>G\<newline>>c\<newline>T\<newline>''"
proof -
  have run: "split_SplitSource False \<lparr>num_pieces = 2, buffer_size = 5\<rparr>
               ''>a\<newline>C\<newline>>b\<newline>G\<newline>>c\<newline>T\<newline>'' (buffer_of [])
             = Inr [''>a\<newline>C\<newline>'', ''>b\<newline>G\<newline>>c\<newline>T\<newline>'']"
    by code_simp
  from split_SplitSource_concat [OF _ _ run] run show ?thesis by simp
qed

text \<open>
  Claim C1 says that the pieces of every run that completes, concatenated in the
  order of their numbers, are the input. With the chunk size 0 they are not.
  \<open>split_ParseCmdLine\<close> checks the chunk size against its upper limit only and
  lets 0 through. Then every refill asks for 0 bytes, the active data size 0 is
  not less than the chunk size 0, so the bound is \<open>data_start + 0 - 1\<close>, nothing
  is written, the budget is set to 0 and the piece is closed empty. The build
  without assertions returns from \<open>split_SplitSource\<close> with \<open>num_pieces\<close> empty
  pieces and all the input still to place; the debug build stops at the
  assertion of line 672, which no run with this chunk size can pass.
\<close>

theorem chunk_size_zero_loses_input:
  "split_SplitSource False \<lparr>num_pieces = 2, buffer_size = 0\<rparr>
     ''>a\<newline>AC\<newline>>b\<newline>GT\<newline>'' heap = Inr [[], []]
   \<and> concat [[], []] \<noteq> ''>a\<newline>AC\<newline>>b\<newline>GT\<newline>''
   \<and> split_SplitSource True \<lparr>num_pieces = 2, buffer_size = 0\<rparr>
     ''>a\<newline>AC\<newline>>b\<newline>GT\<newline>'' heap
     = Inl (Internal_error ''split.cpp'' 672, [[]])"
  by (simp add: split_SplitSource_def for_pieces.simps while_to_read.simps start_piece_def
        projected_size_def loop_body_def refill_def transfer_def compact_def reinitialize_def
        split_FillUpperBuffHalfFromInput_def split_WriteOutput_def
        split_CalcUpperBoundOfOutputTransfer_def load_bytes_def append_to_open_piece_def
        INT64_MAX_def Let_def initial_state_def signed_divide_int_def signed_modulo_int_def)

section \<open>Runs: the states at the head of the loop\<close>

text \<open>
  Every state of \<open>loop_head\<close> lies on the path of the run: what \<open>split_SplitSource\<close>
  computes from the initial state is what the loops compute from that state on.
\<close>

lemma loop_head_run:
  assumes "loop_head dbg opts input heap piece_num s"
  shows "for_pieces dbg opts input 0 (initial_state opts input heap)
         = (case while_to_read dbg opts input piece_num s of
              Inl e \<Rightarrow> Inl e
            | Inr s2 \<Rightarrow> for_pieces dbg opts input (piece_num + 1) s2)"
  using assms
proof (induction rule: loop_head.induct)
  case (first_piece s)
  then show ?case by (subst for_pieces.simps) simp
next
  case (next_pass piece_num s s')
  then show ?case by (subst (asm) while_to_read.simps) simp
next
  case (next_piece piece_num s s')
  have "while_to_read dbg opts input piece_num s = Inr s"
    using next_piece.hyps(2) by (subst while_to_read.simps) simp
  with next_piece show ?case
    by (subst (asm) (2) for_pieces.simps) simp
qed


lemma while_to_read_done:
  assumes "to_read s = 0"
  shows "while_to_read dbg opts input piece_num s = Inr s"
  using assms by (subst while_to_read.simps) simp

lemma split_SplitSource_for_pieces:
  assumes "dbg \<longrightarrow> 1 < num_pieces opts \<and> buffer_size opts \<le> INT64_MAX div 2"
      and "for_pieces dbg opts input 0 (initial_state opts input heap) = Inl e"
  shows "split_SplitSource dbg opts input heap = Inl e"
  using assms by (auto simp: split_SplitSource_def)

lemma piece_start_inv:
  assumes "piece_start dbg opts input heap piece_num s" and bs: "1 \<le> buffer_size opts"
  shows "engine_inv opts input s \<and> 0 \<le> piece_num \<and> int (length (pieces s)) = piece_num"
proof -
  from assms(1) consider
      (first) "piece_num = 0" "s = initial_state opts input heap"
    | (later) "loop_head dbg opts input heap (piece_num - 1) s"
    by (auto simp: piece_start_def)
  then show ?thesis
  proof cases
    case first
    with initial_state_inv [OF bs, of input heap] show ?thesis
      by (simp add: initial_state_def)
  next
    case later
    from loop_head_inv [OF later bs] show ?thesis
      by (simp add: piece_inv_def)
  qed
qed

lemma piece_start_run:
  assumes "piece_start dbg opts input heap piece_num s"
  shows "for_pieces dbg opts input 0 (initial_state opts input heap)
         = for_pieces dbg opts input piece_num s"
proof -
  from assms consider
      (first) "piece_num = 0" "s = initial_state opts input heap"
    | (later) "loop_head dbg opts input heap (piece_num - 1) s" "to_read s = 0"
    by (auto simp: piece_start_def)
  then show ?thesis
  proof cases
    case first
    then show ?thesis by simp
  next
    case later
    from loop_head_run [OF later(1)] while_to_read_done [OF later(2)] show ?thesis
      by simp
  qed
qed

section \<open>The engine on given inputs\<close>

text \<open>
  Rules that run the model on a given input by rewriting. The buffer stays a
  term (\<open>store_bytes\<close> applied to what was read); only its cells are evaluated.
\<close>

lemma store_bytes_at:
  "store_bytes buff at bytes k
   = (if at \<le> k \<and> k < at + int (length bytes) then bytes ! nat (k - at) else buff k)"
  by (simp add: store_bytes_def)

lemma shift_ptr_at: "shift_ptr buff k j = buff (k + j)"
  by (simp add: shift_ptr_def)

lemmas step_defs = start_piece_def projected_size_def loop_body_def refill_def transfer_def
  compact_def reinitialize_def split_FillUpperBuffHalfFromInput_def split_WriteOutput_def
  split_CalcUpperBoundOfOutputTransfer_def split_FindBound_def find_loop.simps
  find_iteration_def store_bytes_at load_bytes_def append_to_open_piece_def shift_ptr_at
  new_line_def SPLIT_BOUND_NOT_FOUND_def INT64_MAX_def Let_def initial_state_def
  signed_divide_int_def signed_modulo_int_def upto_rec1

lemmas run_defs = split_SplitSource_def for_pieces.simps while_to_read.simps step_defs

text \<open>
  Claim C3. The 12 bytes \<open>>a\<close>, \<open>AC\<close>, \<open>>b\<close>, \<open>GT\<close> (each line ended by a line feed),
  split into 2 pieces, give the pieces \<open>>a AC\<close> and \<open>>b GT\<close>: with every chunk size
  that holds the whole file (12 bytes or more, up to the largest chunk size the
  command line accepts), and with a chunk size of 5 bytes, which takes three
  refills. This holds in both builds and whatever the buffer holds at first.
\<close>

theorem two_records_two_pieces:
  assumes "12 \<le> chunk" and "chunk \<le> INT64_MAX div 2"
  shows "split_SplitSource dbg \<lparr>num_pieces = 2, buffer_size = chunk\<rparr>
           ''>a\<newline>AC\<newline>>b\<newline>GT\<newline>'' heap
         = Inr [''>a\<newline>AC\<newline>'', ''>b\<newline>GT\<newline>'']
       \<and> split_SplitSource dbg \<lparr>num_pieces = 2, buffer_size = 5\<rparr>
           ''>a\<newline>AC\<newline>>b\<newline>GT\<newline>'' heap
         = Inr [''>a\<newline>AC\<newline>'', ''>b\<newline>GT\<newline>'']"
proof -
  have large: "split_SplitSource dbg \<lparr>num_pieces = 2, buffer_size = chunk\<rparr>
           ''>a\<newline>AC\<newline>>b\<newline>GT\<newline>'' heap
         = Inr [''>a\<newline>AC\<newline>'', ''>b\<newline>GT\<newline>'']"
    using assms by (cases dbg) (simp_all add: run_defs)
  have small: "split_SplitSource dbg \<lparr>num_pieces = 2, buffer_size = 5\<rparr>
           ''>a\<newline>AC\<newline>>b\<newline>GT\<newline>'' heap
         = Inr [''>a\<newline>AC\<newline>'', ''>b\<newline>GT\<newline>'']"
    by (cases dbg) (simp_all add: run_defs)
  from large small show ?thesis by simp
qed

theorem two_records_two_pieces_witness:
  "(12::int) \<le> 4194304 \<and> (4194304::int) \<le> INT64_MAX div 2
   \<and> split_SplitSource False \<lparr>num_pieces = 2, buffer_size = 4194304\<rparr>
           ''>a\<newline>AC\<newline>>b\<newline>GT\<newline>'' (buffer_of [])
         = Inr [''>a\<newline>AC\<newline>'', ''>b\<newline>GT\<newline>'']
   \<and> split_SplitSource False \<lparr>num_pieces = 2, buffer_size = 5\<rparr>
           ''>a\<newline>AC\<newline>>b\<newline>GT\<newline>'' (buffer_of [])
         = Inr [''>a\<newline>AC\<newline>'', ''>b\<newline>GT\<newline>'']"
proof -
  have b: "(4194304::int) \<le> INT64_MAX div 2" by (simp add: INT64_MAX_def)
  from two_records_two_pieces [OF _ b, of False "buffer_of []"] b show ?thesis by simp
qed

text \<open>
  Claim C4 says that the active data, \<open>data_end - data_start + 1\<close>, is less than
  twice the chunk size whenever the bound is computed, as the assertion of line
  672 does. It is not: three records of 5 bytes, 2 pieces, chunk size 5. The
  first piece takes the first chunk and, with a budget of 3 left, stops before
  the second chunk, which starts a record (\<open>split_FindBound\<close> returns \<open>- 1\<close>). The
  whole upper half moves to the lower half, the second piece refills the upper
  half, and the window is the whole buffer: 10 bytes. The debug build stops at
  the assertion; the other build goes on and splits the file as it should.
\<close>

theorem active_data_fills_buffer:
  "split_SplitSource True \<lparr>num_pieces = 2, buffer_size = 5\<rparr>
     ''>a\<newline>C\<newline>>b\<newline>G\<newline>>c\<newline>T\<newline>'' heap
   = Inl (Internal_error ''split.cpp'' 672, [''>a\<newline>C\<newline>'', []])
   \<and> split_SplitSource False \<lparr>num_pieces = 2, buffer_size = 5\<rparr>
     ''>a\<newline>C\<newline>>b\<newline>G\<newline>>c\<newline>T\<newline>'' heap
   = Inr [''>a\<newline>C\<newline>'', ''>b\<newline>G\<newline>>c\<newline>T\<newline>'']"
  by (simp add: run_defs)

text \<open>What the engine does keep: the window never exceeds the buffer.\<close>

lemma active_data_bound:
  assumes "loop_head dbg opts input heap piece_num s" and "1 \<le> buffer_size opts"
      and "refill dbg opts input s = Inr s1"
  shows "data_end s1 - data_start s1 + 1 \<le> 2 * buffer_size opts"
proof -
  from loop_head_inv [OF assms(1,2)] have "engine_inv opts input s"
    by (simp add: piece_inv_def)
  from refill_inv [OF assms(2) this assms(3)] show ?thesis
    by (simp add: engine_inv_def window_inv_def)
qed

section \<open>The budgets of the pieces\<close>

lemma ceil_upper:
  fixes b r :: int
  assumes "0 < r"
  shows "b \<le> (if b mod r \<noteq> 0 then b div r + 1 else b div r) * r"
proof -
  have d: "b = (b div r) * r + b mod r" by simp
  have m: "b mod r < r" using assms by simp
  show ?thesis
  proof (cases "b mod r = 0")
    case True
    with d show ?thesis by simp
  next
    case False
    have e: "(b div r + 1) * r = (b div r) * r + r" by (simp add: algebra_simps)
    from d m have "b \<le> (b div r) * r + r" by linarith
    with e False show ?thesis by simp
  qed
qed

lemma ceil_le:
  fixes x r t :: int
  assumes "0 < r" and "x \<le> t * r"
  shows "(if x mod r \<noteq> 0 then x div r + 1 else x div r) \<le> t"
proof -
  have le: "x div r \<le> t"
    using assms zdiv_mono1 [of x "t * r" r] by simp
  show ?thesis
  proof (cases "x mod r = 0")
    case True
    with le show ?thesis by simp
  next
    case False
    have "x div r \<noteq> t"
    proof
      assume e: "x div r = t"
      have "x = (x div r) * r + x mod r" by simp
      moreover have "0 < x mod r" using False assms(1) pos_mod_sign [of r x] by linarith
      ultimately have "t * r < x" using e by (metis less_add_same_cancel1)
      with assms(2) show False by simp
    qed
    with le False show ?thesis by simp
  qed
qed

lemma projected_size_upper:
  assumes "0 \<le> b" and "k < p"
  shows "b \<le> projected_size b p k * (p - k)"
  using assms ceil_upper [of "p - k" b] by (simp add: projected_size_pos)

lemma projected_size_le:
  assumes "0 \<le> b" and "k < p" and "b \<le> t * (p - k)"
  shows "projected_size b p k \<le> t"
  using assms ceil_le [of "p - k" b t] by (simp add: projected_size_pos)

lemma projected_size_le_available:
  assumes "0 \<le> b" and "k < p"
  shows "projected_size b p k \<le> b"
proof -
  have "b \<le> b * (p - k)" using assms by (simp add: mult_le_cancel_left1)
  with projected_size_le [OF assms] show ?thesis .
qed

text \<open>
  Claim C5 says that the budgets \<open>to_read\<close> of the pieces of a run never increase.
  They can: the locator prefers the bound to the left of the projected one, and a
  piece that ends before its budget leaves more bytes to the pieces that follow.
  With a record of 5 bytes and one of 12, 2 pieces, the budgets are 9 and 12.
\<close>

theorem budgets_grow_counterexample:
  "piece_budgets False \<lparr>num_pieces = 2, buffer_size = 100\<rparr>
     ''>a\<newline>A\<newline>>b\<newline>GGGGGGGG\<newline>'' (buffer_of []) = [9, 12]
   \<and> \<not> sorted_wrt (\<ge>) (piece_budgets False \<lparr>num_pieces = 2, buffer_size = 100\<rparr>
     ''>a\<newline>A\<newline>>b\<newline>GGGGGGGG\<newline>'' (buffer_of []))
   \<and> split_SplitSource False \<lparr>num_pieces = 2, buffer_size = 100\<rparr>
     ''>a\<newline>A\<newline>>b\<newline>GGGGGGGG\<newline>'' (buffer_of [])
     = Inr [''>a\<newline>A\<newline>'', ''>b\<newline>GGGGGGGG\<newline>'']"
proof -
  have a: "piece_budgets False \<lparr>num_pieces = 2, buffer_size = 100\<rparr>
     ''>a\<newline>A\<newline>>b\<newline>GGGGGGGG\<newline>'' (buffer_of []) = [9, 12]"
    by code_simp
  have b: "split_SplitSource False \<lparr>num_pieces = 2, buffer_size = 100\<rparr>
     ''>a\<newline>A\<newline>>b\<newline>GGGGGGGG\<newline>'' (buffer_of [])
     = Inr [''>a\<newline>A\<newline>'', ''>b\<newline>GGGGGGGG\<newline>'']"
    by code_simp
  from a b show ?thesis by simp
qed

text \<open>
  Claim C5, amended. In a run with a chunk size of at least 1, let piece
  \<open>piece_num\<close> start in state \<open>s\<close> with the budget \<open>to_read s1\<close>. Every such budget
  is at most the number of bytes of the input. If the piece is not the last one,
  ends in state \<open>s2\<close> and has received at least its budget (its end was not moved
  to the left of the projected bound), the budget of the next piece is at most
  the budget of this one.
\<close>

theorem budget_after_full_piece:
  assumes "1 \<le> buffer_size opts"
      and "piece_start dbg opts input heap piece_num s"
      and "piece_num < num_pieces opts"
      and "start_piece opts piece_num s = Inr s1"
  shows "to_read s1 \<le> int (length input)
       \<and> (\<forall>s2. piece_num + 1 < num_pieces opts
                \<and> while_to_read dbg opts input piece_num s1 = Inr s2
                \<and> to_read s1 \<le> bytes_available s - bytes_available s2
              \<longrightarrow> projected_size (bytes_available s2) (num_pieces opts) (piece_num + 1)
                  \<le> to_read s1)"
proof -
  let ?r = "num_pieces opts - piece_num"
  from piece_start_inv [OF assms(2,1)] have e: "engine_inv opts input s"
    and k: "0 \<le> piece_num" and len: "int (length (pieces s)) = piece_num"
    by simp_all
  note lt = assms(3)
  from start_piece_inv [OF e k lt len assms(4)] have p1: "piece_inv opts input piece_num s1" .
  have b: "0 \<le> bytes_available s" using e by (rule engine_inv_available)
  have t: "to_read s1 = projected_size (bytes_available s) (num_pieces opts) piece_num"
    using assms(4) by (auto simp: start_piece_def Let_def split: if_splits)
  from projected_size_le_available [OF b lt] t e
  have bound: "to_read s1 \<le> int (length input)"
    by (simp add: engine_inv_def window_inv_def)
  have next_le: "projected_size (bytes_available s2) (num_pieces opts) (piece_num + 1)
                 \<le> to_read s1"
    if more: "piece_num + 1 < num_pieces opts"
      and w: "while_to_read dbg opts input piece_num s1 = Inr s2"
      and full: "to_read s1 \<le> bytes_available s - bytes_available s2" for s2
  proof -
    from while_to_read_inv [OF assms(1) p1 w] have "engine_inv opts input s2"
      by (simp add: piece_inv_def)
    then have b2: "0 \<le> bytes_available s2" by (rule engine_inv_available)
    from projected_size_upper [OF b lt] t have up: "bytes_available s \<le> to_read s1 * ?r"
      by simp
    have "to_read s1 * ?r = to_read s1 * (num_pieces opts - (piece_num + 1)) + to_read s1"
      by (simp add: algebra_simps)
    with up full
    have "bytes_available s2 \<le> to_read s1 * (num_pieces opts - (piece_num + 1))"
      by linarith
    from projected_size_le [OF b2 more this] show ?thesis .
  qed
  from bound next_le show ?thesis by blast
qed

theorem budget_after_full_piece_witness:
  "(1::int) \<le> 12 \<and> (0::int) < 2 \<and> (0::int) + 1 < 2 \<and> (6::int) \<le> 12 - 6
   \<and> projected_size 6 2 (0 + 1) \<le> 6
   \<and> (6::int) \<le> int (length ''>a\<newline>AC\<newline>>b\<newline>GT\<newline>'')"
proof -
  let ?opts = "\<lparr>num_pieces = 2, buffer_size = 12\<rparr>"
  let ?inp = "''>a\<newline>AC\<newline>>b\<newline>GT\<newline>''"
  let ?heap = "buffer_of []"
  let ?s0 = "\<lparr>double_buff = ?heap, data_start = 12, data_end = 11, bytes_available = 12,
              bytes_not_read = 12, to_read = 6, is_first_block = True, input_offset = 0,
              pieces = [[]]\<rparr>"
  let ?s0' = "\<lparr>double_buff = store_bytes (store_bytes ?heap 12 ?inp) 6 ''>b\<newline>GT\<newline>'',
               data_start = 6, data_end = 11, bytes_available = 6,
               bytes_not_read = 0, to_read = 0, is_first_block = False, input_offset = 12,
               pieces = [''>a\<newline>AC\<newline>'']\<rparr>"
  have a: "start_piece ?opts 0 (initial_state ?opts ?inp ?heap) = Inr ?s0"
    by (simp add: step_defs)
  have b: "while_to_read False ?opts ?inp 0 ?s0 = Inr ?s0'"
    by (simp add: while_to_read.simps step_defs)
  have st: "piece_start False ?opts ?inp ?heap 0 (initial_state ?opts ?inp ?heap)"
    by (simp add: piece_start_def)
  have h1: "1 \<le> buffer_size ?opts" and h3: "0 < num_pieces ?opts"
    by simp_all
  note r = budget_after_full_piece [OF h1 st h3 a]
  from r [THEN conjunct2, THEN spec, of ?s0'] b have "projected_size 6 2 (0 + 1) \<le> 6"
    by (simp add: initial_state_def)
  with r [THEN conjunct1] show ?thesis
    by simp
qed

section \<open>The bound-decision layer in a run\<close>

lemma calc_last_piece:
  assumes "pm \<le> de - ds + 1"
  shows "split_CalcUpperBoundOfOutputTransfer dbg buff bs ds de pm fb eoi True
         = (if dbg \<and> \<not> de - ds + 1 < 2 * bs then Inl (Internal_error ''split.cpp'' 672)
            else if dbg \<and> \<not> pm = de - ds + 1 then Inl (Internal_error ''split.cpp'' 692)
            else Inr de)"
  using assms by (simp add: split_CalcUpperBoundOfOutputTransfer_def Let_def)

text \<open>
  Claim C6. Take any pass of the loop of the last piece in a run (chunk size at
  least 1), and let \<open>s1\<close> be the state after the refill, in which the bound is
  computed. If the budget \<open>to_read s1\<close> (the argument \<open>projected_max\<close>) is at most
  the active data size, then it is equal to it, and
  \<open>split_CalcUpperBoundOfOutputTransfer\<close> returns \<open>data_end\<close>: in the debug build
  unless the assertion of line 672 stops it, never the assertion of line 692; in
  the other build always, and whatever the buffer holds, since the locator is
  not asked. The transfer then sends the whole window to the piece.
\<close>

theorem last_piece_takes_the_rest:
  assumes "1 \<le> buffer_size opts"
      and "loop_head dbg opts input heap piece_num s" and "to_read s \<noteq> 0"
      and "refill dbg opts input s = Inr s1"
      and "piece_num = num_pieces opts - 1"
      and "to_read s1 \<le> data_end s1 - data_start s1 + 1"
  shows "to_read s1 = data_end s1 - data_start s1 + 1
       \<and> split_CalcUpperBoundOfOutputTransfer dbg (double_buff s1) (buffer_size opts)
           (data_start s1) (data_end s1) (to_read s1) (is_first_block s1)
           (bytes_not_read s1 = 0) (piece_num = num_pieces opts - 1)
         = (if dbg \<and> \<not> data_end s1 - data_start s1 + 1 < 2 * buffer_size opts
            then Inl (Internal_error ''split.cpp'' 672) else Inr (data_end s1))
       \<and> split_CalcUpperBoundOfOutputTransfer False buff (buffer_size opts) (data_start s1)
           (data_end s1) (to_read s1) first_block end_of_input True = Inr (data_end s1)
       \<and> (\<forall>s2. transfer False opts piece_num s1 = Inr s2 \<longrightarrow>
             pieces s2 = append_to_open_piece (pieces s1)
               (load_bytes (double_buff s1) (data_start s1) (data_end s1 - data_start s1 + 1))
             \<and> bytes_available s2 = bytes_available s1 - (data_end s1 - data_start s1 + 1))"
proof -
  from loop_head_inv [OF assms(2,1)] assms(5)
  have e: "engine_inv opts input s" and eq: "to_read s = bytes_available s"
    by (simp_all add: piece_inv_def)
  from refill_inv [OF assms(1) e assms(4)] have "window_inv opts input s1"
    by (simp add: engine_inv_def)
  then have "bytes_available s1 = (data_end s1 - data_start s1 + 1) + bytes_not_read s1"
    and "0 \<le> bytes_not_read s1"
    by (simp_all add: window_inv_def)
  with eq refill_same(2,3) [OF assms(4)] assms(6)
  have all: "to_read s1 = data_end s1 - data_start s1 + 1" by simp
  have call: "split_CalcUpperBoundOfOutputTransfer d b (buffer_size opts) (data_start s1)
                (data_end s1) (to_read s1) f e True
              = (if d \<and> \<not> data_end s1 - data_start s1 + 1 < 2 * buffer_size opts
                 then Inl (Internal_error ''split.cpp'' 672) else Inr (data_end s1))" for d b f e
    using all by (simp add: calc_last_piece)
  have sent: "pieces s2 = append_to_open_piece (pieces s1)
               (load_bytes (double_buff s1) (data_start s1) (data_end s1 - data_start s1 + 1))
             \<and> bytes_available s2 = bytes_available s1 - (data_end s1 - data_start s1 + 1)"
    if "transfer False opts piece_num s1 = Inr s2" for s2
  proof -
    from transfer_result [OF that] obtain oce where
      c: "split_CalcUpperBoundOfOutputTransfer False (double_buff s1) (buffer_size opts)
            (data_start s1) (data_end s1) (to_read s1) (is_first_block s1)
            (bytes_not_read s1 = 0) (piece_num = num_pieces opts - 1) = Inr oce" and
      s2: "s2 = s1\<lparr>to_read :=
                     (if oce < data_start s1 then 0
                      else if oce - data_start s1 + 1 > to_read s1 then 0
                      else to_read s1 - (oce - data_start s1 + 1)),
                   pieces := append_to_open_piece (pieces s1)
                     (load_bytes (double_buff s1) (data_start s1) (oce - data_start s1 + 1)),
                   bytes_available := bytes_available s1 - (oce - data_start s1 + 1),
                   data_start := oce + 1,
                   is_first_block := False\<rparr>"
      by blast
    from c assms(5) have "oce = data_end s1" by (simp add: call)
    then show ?thesis by (simp add: s2)
  qed
  from all call [of dbg "double_buff s1" "is_first_block s1" "bytes_not_read s1 = 0"]
    call [of False buff first_block end_of_input] sent assms(5)
  show ?thesis by simp
qed

theorem last_piece_takes_the_rest_witness:
  "(1::int) \<le> 12 \<and> (1::int) = 2 - 1 \<and> (6::int) \<le> 11 - 6 + 1
   \<and> split_CalcUpperBoundOfOutputTransfer False (buffer_of []) 12 6 11 6 False True True
       = Inr 11"
proof -
  let ?opts = "\<lparr>num_pieces = 2, buffer_size = 12\<rparr>"
  let ?inp = "''>a\<newline>AC\<newline>>b\<newline>GT\<newline>''"
  let ?heap = "buffer_of []"
  let ?s0 = "\<lparr>double_buff = ?heap, data_start = 12, data_end = 11, bytes_available = 12,
              bytes_not_read = 12, to_read = 6, is_first_block = True, input_offset = 0,
              pieces = [[]]\<rparr>"
  let ?s0' = "\<lparr>double_buff = store_bytes (store_bytes ?heap 12 ?inp) 6 ''>b\<newline>GT\<newline>'',
               data_start = 6, data_end = 11, bytes_available = 6,
               bytes_not_read = 0, to_read = 0, is_first_block = False, input_offset = 12,
               pieces = [''>a\<newline>AC\<newline>'']\<rparr>"
  let ?sA = "\<lparr>double_buff = store_bytes (store_bytes ?heap 12 ?inp) 6 ''>b\<newline>GT\<newline>'',
               data_start = 6, data_end = 11, bytes_available = 6,
               bytes_not_read = 0, to_read = 6, is_first_block = True, input_offset = 12,
               pieces = [''>a\<newline>AC\<newline>'', []]\<rparr>"
  have a: "start_piece ?opts 0 (initial_state ?opts ?inp ?heap) = Inr ?s0"
    by (simp add: step_defs)
  have b: "loop_body False ?opts ?inp 0 ?s0 = Inr ?s0'"
    by (simp add: step_defs)
  have c: "start_piece ?opts (0 + 1) ?s0' = Inr ?sA"
    by (simp add: step_defs)
  have d: "refill False ?opts ?inp ?sA = Inr ?sA"
    by (simp add: step_defs)
  have h0: "loop_head False ?opts ?inp ?heap 0 ?s0"
    by (rule loop_head.first_piece [OF _ a]) simp
  have h0': "loop_head False ?opts ?inp ?heap 0 ?s0'"
    by (rule loop_head.next_pass [OF h0 _ b]) simp
  have hA: "loop_head False ?opts ?inp ?heap (0 + 1) ?sA"
    by (rule loop_head.next_piece [OF h0' _ _ c]) simp_all
  then have hA1: "loop_head False ?opts ?inp ?heap 1 ?sA" by simp
  from last_piece_takes_the_rest [OF _ hA1 _ d, where buff = "buffer_of []"
      and first_block = False and end_of_input = True]
  show ?thesis
    by simp
qed



text \<open>
  Claim C8. If the budget of piece \<open>piece_num\<close> computes to 0 while that piece is
  still to be written, the loop over the pieces stops with
  \<open>Pieces_not_produced piece_num\<close> (the message that only \<open>piece_num\<close> pieces were
  written) before the file of the piece is created: the output files are those
  of the state in which the piece would have started. In a run (chunk size at
  least 1) this is the result of \<open>split_SplitSource\<close>, and the number reported is
  the number of files written.
\<close>

theorem no_budget_left:
  assumes "piece_num < num_pieces opts"
      and "projected_size (bytes_available s) (num_pieces opts) piece_num = 0"
  shows "for_pieces dbg opts input piece_num s = Inl (Pieces_not_produced piece_num, pieces s)
       \<and> ((dbg \<longrightarrow> 1 < num_pieces opts \<and> buffer_size opts \<le> INT64_MAX div 2)
            \<and> 1 \<le> buffer_size opts
            \<and> piece_start dbg opts input heap piece_num s
          \<longrightarrow> split_SplitSource dbg opts input heap
                = Inl (Pieces_not_produced piece_num, pieces s)
              \<and> int (length (pieces s)) = piece_num)"
proof -
  have stop: "for_pieces dbg opts input piece_num s
              = Inl (Pieces_not_produced piece_num, pieces s)"
    using assms by (subst for_pieces.simps) (simp add: start_piece_def)
  have run: "split_SplitSource dbg opts input heap
               = Inl (Pieces_not_produced piece_num, pieces s)
             \<and> int (length (pieces s)) = piece_num"
    if pre: "dbg \<longrightarrow> 1 < num_pieces opts \<and> buffer_size opts \<le> INT64_MAX div 2"
      and bs: "1 \<le> buffer_size opts"
      and st: "piece_start dbg opts input heap piece_num s"
  proof -
    from piece_start_run [OF st] stop
    have "for_pieces dbg opts input 0 (initial_state opts input heap)
          = Inl (Pieces_not_produced piece_num, pieces s)"
      by simp
    from split_SplitSource_for_pieces [OF pre this] piece_start_inv [OF st bs]
    show ?thesis by simp
  qed
  from stop run show ?thesis by blast
qed

theorem no_budget_left_witness:
  "(1::int) < 2 \<and> projected_size 0 2 1 = 0
   \<and> split_SplitSource False \<lparr>num_pieces = 2, buffer_size = 100\<rparr> ''>a\<newline>AC\<newline>''
        (buffer_of [])
      = Inl (Pieces_not_produced 1, [''>a\<newline>AC\<newline>''])"
proof -
  let ?opts = "\<lparr>num_pieces = 2, buffer_size = 100\<rparr>"
  let ?inp = "''>a\<newline>AC\<newline>''"
  let ?heap = "buffer_of []"
  let ?s0 = "\<lparr>double_buff = ?heap, data_start = 100, data_end = 99, bytes_available = 6,
              bytes_not_read = 6, to_read = 3, is_first_block = True, input_offset = 0,
              pieces = [[]]\<rparr>"
  let ?s0' = "\<lparr>double_buff = store_bytes ?heap 100 ?inp, data_start = 100, data_end = 99,
               bytes_available = 0, bytes_not_read = 0, to_read = 0, is_first_block = False,
               input_offset = 6, pieces = [''>a\<newline>AC\<newline>'']\<rparr>"
  have a: "start_piece ?opts 0 (initial_state ?opts ?inp ?heap) = Inr ?s0"
    by (simp add: step_defs)
  have b: "loop_body False ?opts ?inp 0 ?s0 = Inr ?s0'"
    by (simp add: step_defs)
  have h0: "loop_head False ?opts ?inp ?heap 0 ?s0"
    by (rule loop_head.first_piece [OF _ a]) simp
  have h0': "loop_head False ?opts ?inp ?heap (1 - 1) ?s0'"
    using loop_head.next_pass [OF h0 _ b] by simp
  have st: "piece_start False ?opts ?inp ?heap 1 ?s0'"
    using h0' by (simp add: piece_start_def)
  have z: "projected_size (bytes_available ?s0') (num_pieces ?opts) 1 = 0"
    by (simp add: projected_size_def)
  from no_budget_left [where piece_num = 1 and opts = ?opts and s = ?s0' and dbg = False
      and input = ?inp and heap = ?heap, OF _ z] st z
  show ?thesis
    by simp
qed

end
